theory Spec2Isabelle
  imports
    Main
    "HOL-Library.Multiset"
    "HOL-Library.Char_ord"
    "HOL-Library.List_Lexorder"
    "HOL-Library.Product_Lexorder"
begin

section \<open>Topological-order auto-sort (process\_mods.py, ensure\_topological\_order)\<close>

text \<open>
  Mod IDs are Python strings; the sorter only compares them for equality and, inside
  the heap tuples, for order, so the model is polymorphic in a linearly ordered type of
  identifiers (instantiated with \<open>string\<close> in the concrete evaluations).

  \<open>_fatal\<close> prints a message and raises \<open>SystemExit(1)\<close>; the two calls inside
  \<open>ensure_topological_order\<close> become the two constructors of \<open>topo_error\<close>. The
  constructors carry the data the message is formatted from.
\<close>

datatype 'a topo_error =
    MissingDependency 'a 'a
  | CycleDetected "'a list"

text \<open>\<open>requires_map.get(mod_id, [])\<close>\<close>

definition requires_of :: "('a \<rightharpoonup> 'a list) \<Rightarrow> 'a \<Rightarrow> 'a list" where
  "requires_of requires_map mod_id =
     (case requires_map mod_id of None \<Rightarrow> [] | Some deps \<Rightarrow> deps)"

text \<open>
  \<open>original_pos = {mid: i for i, mid in enumerate(mod_ids)}\<close>: a later occurrence of
  the same key overwrites an earlier one. The dictionary is only ever indexed with
  members of \<open>mod_ids\<close>, so it is modelled as a total function; the value at other
  arguments is never read.
\<close>

definition original_pos :: "'a list \<Rightarrow> 'a \<Rightarrow> nat" where
  "original_pos mod_ids =
     fold (\<lambda>(i, mid) d. d(mid := i)) (enumerate 0 mod_ids) (\<lambda>_. 0)"

text \<open>
  The inner loop \<open>for dep in requires_map.get(mod_id, [])\<close> of the edge construction.
  \<open>prereqs\<close> is the dictionary of sets under construction.
\<close>

fun add_deps ::
  "'a set \<Rightarrow> ('a \<rightharpoonup> 'a list) \<Rightarrow> 'a \<Rightarrow> 'a list \<Rightarrow> ('a \<Rightarrow> 'a set)
     \<Rightarrow> 'a topo_error + ('a \<Rightarrow> 'a set)" where
  "add_deps mod_id_set requires_map mod_id [] prereqs = Inr prereqs"
| "add_deps mod_id_set requires_map mod_id (dep # deps) prereqs =
     (if requires_map dep = None then add_deps mod_id_set requires_map mod_id deps prereqs
      else if dep \<notin> mod_id_set then Inl (MissingDependency mod_id dep)
      else add_deps mod_id_set requires_map mod_id deps
             (prereqs(mod_id := insert dep (prereqs mod_id))))"

text \<open>The outer loop \<open>for mod_id in mod_ids\<close>.\<close>

fun build_prereqs ::
  "'a set \<Rightarrow> ('a \<rightharpoonup> 'a list) \<Rightarrow> 'a list \<Rightarrow> ('a \<Rightarrow> 'a set)
     \<Rightarrow> 'a topo_error + ('a \<Rightarrow> 'a set)" where
  "build_prereqs mod_id_set requires_map [] prereqs = Inr prereqs"
| "build_prereqs mod_id_set requires_map (mod_id # rest) prereqs =
     (case add_deps mod_id_set requires_map mod_id (requires_of requires_map mod_id) prereqs of
        Inl e \<Rightarrow> Inl e
      | Inr prereqs' \<Rightarrow> build_prereqs mod_id_set requires_map rest prereqs')"

text \<open>
  \<open>dependents\<close> is filled by
  \<open>for mod_id in mod_ids: for dep in prereqs[mod_id]: dependents[dep].append(mod_id)\<close>.
  Whatever order the inner loop visits a set in, the list stored under \<open>dep\<close> receives
  the mods that have \<open>dep\<close> as a prerequisite in the order of \<open>mod_ids\<close>.
\<close>

definition dependents :: "'a list \<Rightarrow> ('a \<Rightarrow> 'a set) \<Rightarrow> 'a \<Rightarrow> 'a list" where
  "dependents mod_ids prereqs dep = filter (\<lambda>mod_id. dep \<in> prereqs mod_id) mod_ids"

text \<open>
  The heap holds tuples \<open>(original_pos[mid], mid)\<close>. \<open>heapq\<close> is modelled by what it
  guarantees: \<open>heappush\<close> adds an entry, \<open>heappop\<close> removes and returns a least entry
  in the order of Python tuples (first component, then second). Popping an empty heap
  raises; the loop only pops when the heap is non-empty.
\<close>

definition heappush :: "(nat \<times> 'a) list \<Rightarrow> nat \<times> 'a \<Rightarrow> (nat \<times> 'a) list" where
  "heappush heap item = heap @ [item]"

fun heappop :: "(nat \<times> 'a::linorder) list \<Rightarrow> ((nat \<times> 'a) \<times> (nat \<times> 'a) list) option" where
  "heappop [] = None"
| "heappop (x # xs) = (let m = fold min xs x in Some (m, remove1 m (x # xs)))"

text \<open>
  The body of \<open>for dependent in dependents[mid]\<close>: decrement, and push when the
  counter reaches zero. Python integers do not stop at zero, hence \<open>int\<close>.
\<close>

fun relax ::
  "('a \<Rightarrow> nat) \<Rightarrow> 'a list \<Rightarrow> ('a \<Rightarrow> int) \<times> (nat \<times> 'a) list
     \<Rightarrow> ('a \<Rightarrow> int) \<times> (nat \<times> 'a) list" where
  "relax pos [] (in_degree, heap) = (in_degree, heap)"
| "relax pos (dependent # rest) (in_degree, heap) =
     (let in_degree' = in_degree(dependent := in_degree dependent - 1)
      in relax pos rest
           (in_degree',
            if in_degree' dependent = 0 then heappush heap (pos dependent, dependent)
            else heap))"

lemma fold_min_in_set: "fold min xs (x::'b::linorder) \<in> set (x # xs)"
proof (induction xs arbitrary: x)
  case Nil
  show ?case by simp
next
  case (Cons y ys)
  have "fold min ys (min y x) \<in> set (min y x # ys)" by (rule Cons.IH)
  moreover have "min y x = x \<or> min y x = y" by (simp add: min_def)
  ultimately show ?case by auto
qed

lemma heappop_Some:
  assumes "heappop heap = Some (m, heap')"
  shows "m \<in> set heap \<and> heap' = remove1 m heap"
proof (cases heap)
  case Nil
  with assms show ?thesis by simp
next
  case (Cons x xs)
  with assms have "m = fold min xs x" and "heap' = remove1 m (x # xs)"
    by (auto simp add: Let_def simp del: remove1.simps)
  with Cons fold_min_in_set[of xs x] show ?thesis by (simp del: remove1.simps)
qed

definition pending :: "'a list \<Rightarrow> ('a \<Rightarrow> int) \<Rightarrow> nat" where
  "pending mod_ids in_degree = card {m \<in> set mod_ids. 0 < in_degree m}"

lemma relax_measure:
  "set ds \<subseteq> set mod_ids \<Longrightarrow> relax pos ds (in_degree, heap) = (in_degree', heap')
     \<Longrightarrow> length heap' + pending mod_ids in_degree' = length heap + pending mod_ids in_degree"
proof (induction ds arbitrary: in_degree heap)
  case Nil
  then show ?case by simp
next
  case (Cons d ds)
  let ?ind = "in_degree(d := in_degree d - 1)"
  let ?heap = "if ?ind d = 0 then heappush heap (pos d, d) else heap"
  from Cons.prems have d: "d \<in> set mod_ids" and ds: "set ds \<subseteq> set mod_ids" by simp_all
  from Cons.prems have "relax pos ds (?ind, ?heap) = (in_degree', heap')"
    by (simp add: Let_def)
  from Cons.IH[OF ds this]
  have IH: "length heap' + pending mod_ids in_degree' = length ?heap + pending mod_ids ?ind" .
  show ?case
  proof (cases "in_degree d = 1")
    case True
    have eq: "{m \<in> set mod_ids. 0 < ?ind m} = {m \<in> set mod_ids. 0 < in_degree m} - {d}"
      using True by auto
    have "d \<in> {m \<in> set mod_ids. 0 < in_degree m}" using True d by simp
    then have "card {m \<in> set mod_ids. 0 < in_degree m}
                 = Suc (card ({m \<in> set mod_ids. 0 < in_degree m} - {d}))"
      by (intro card.remove) simp_all
    with eq have "pending mod_ids in_degree = Suc (pending mod_ids ?ind)"
      by (simp add: pending_def)
    with IH True show ?thesis by (simp add: heappush_def)
  next
    case False
    have "{m \<in> set mod_ids. 0 < ?ind m} = {m \<in> set mod_ids. 0 < in_degree m}"
      using False by auto
    then have "pending mod_ids ?ind = pending mod_ids in_degree"
      by (simp add: pending_def)
    with IH False show ?thesis by simp
  qed
qed

text \<open>
  The loop \<open>while heap: ...\<close>. It terminates because every iteration removes one heap
  entry and each push is paid for by a counter that leaves the positive range.
\<close>

function kahn_loop ::
  "'a::linorder list \<Rightarrow> ('a \<Rightarrow> 'a set) \<Rightarrow> ('a \<Rightarrow> nat) \<Rightarrow> ('a \<Rightarrow> int)
     \<Rightarrow> (nat \<times> 'a) list \<Rightarrow> 'a list \<Rightarrow> 'a list" where
  "kahn_loop mod_ids prereqs pos in_degree heap result =
     (case heappop heap of
        None \<Rightarrow> result
      | Some ((_, mid), heap') \<Rightarrow>
          (case relax pos (dependents mod_ids prereqs mid) (in_degree, heap') of
             (in_degree', heap'') \<Rightarrow>
               kahn_loop mod_ids prereqs pos in_degree' heap'' (result @ [mid])))"
  by pat_completeness auto
termination
proof (relation "measure (\<lambda>(mod_ids, prereqs, pos, in_degree, heap, result).
                    length heap + pending mod_ids in_degree)", goal_cases)
  case 1
  show ?case by simp
next
  case (2 mod_ids prereqs pos in_degree heap result x2 x y p mid in_degree' heap'')
  from 2 have pop: "heappop heap = Some ((p, mid), y)" by simp
  from 2 have rel: "relax pos (dependents mod_ids prereqs mid) (in_degree, y) = (in_degree', heap'')"
    by simp
  from heappop_Some[OF pop] have mem: "(p, mid) \<in> set heap" and y: "y = remove1 (p, mid) heap"
    by simp_all
  have "set (dependents mod_ids prereqs mid) \<subseteq> set mod_ids"
    by (auto simp: dependents_def)
  from relax_measure[OF this rel]
  have "length heap'' + pending mod_ids in_degree' = length y + pending mod_ids in_degree" .
  moreover from mem y have "length y < length heap"
    by (simp add: length_remove1) (cases heap; simp)
  ultimately show ?case by simp
qed

declare kahn_loop.simps [simp del]

text \<open>
  Reorder notes: the source formats one string per moved mod from the mod, its old
  position and its new position; the model keeps that triple.
\<close>

definition reorder_notes :: "'a list \<Rightarrow> 'a list \<Rightarrow> ('a \<times> nat \<times> nat) list" where
  "reorder_notes mod_ids result =
     (let new_pos = original_pos result; old_pos = original_pos mod_ids
      in [(mid, old_pos mid, new_pos mid). mid \<leftarrow> mod_ids, old_pos mid \<noteq> new_pos mid])"

definition ensure_topological_order ::
  "'a::linorder list \<Rightarrow> ('a \<rightharpoonup> 'a list)
     \<Rightarrow> 'a topo_error + ('a list \<times> ('a \<times> nat \<times> nat) list)" where
  "ensure_topological_order mod_ids requires_map =
     (let mod_id_set = set mod_ids;
          pos = original_pos mod_ids
      in case build_prereqs mod_id_set requires_map mod_ids (\<lambda>_. {}) of
           Inl e \<Rightarrow> Inl e
         | Inr prereqs \<Rightarrow>
             if list_all (\<lambda>mod_id. \<forall>dep \<in> prereqs mod_id. pos dep < pos mod_id) mod_ids
             then Inr (mod_ids, [])
             else
               let in_degree = (\<lambda>mid. int (card (prereqs mid)));
                   heap = [(pos mid, mid). mid \<leftarrow> mod_ids, in_degree mid = 0];
                   result = kahn_loop mod_ids prereqs pos in_degree heap []
               in if length result \<noteq> length mod_ids
                  then Inl (CycleDetected [m \<leftarrow> mod_ids. m \<notin> set result])
                  else Inr (result, reorder_notes mod_ids result))"

subsection \<open>Edge construction\<close>

text \<open>
  The prerequisites the claims speak of: a declared prerequisite of \<open>mod_id\<close> counts when
  its own metadata is known, that is, when it is a key of \<open>requires_map\<close>.
\<close>

definition known_deps :: "('a \<rightharpoonup> 'a list) \<Rightarrow> 'a \<Rightarrow> 'a set" where
  "known_deps requires_map mod_id = {dep \<in> set (requires_of requires_map mod_id). requires_map dep \<noteq> None}"

lemma add_deps_Inr:
  "add_deps S rm m ds p = Inr p' \<Longrightarrow>
     p' = p(m := p m \<union> {d \<in> set ds. rm d \<noteq> None}) \<and> {d \<in> set ds. rm d \<noteq> None} \<subseteq> S"
proof (induction ds arbitrary: p)
  case Nil
  then show ?case by simp
next
  case (Cons d ds)
  show ?case
  proof (cases "rm d = None")
    case True
    with Cons.prems have "add_deps S rm m ds p = Inr p'" by simp
    moreover from True have "{x \<in> set (d # ds). rm x \<noteq> None} = {x \<in> set ds. rm x \<noteq> None}"
      by auto
    ultimately show ?thesis using Cons.IH[of p] by simp
  next
    case False
    with Cons.prems have dS: "d \<in> S" by (auto split: if_splits)
    with False Cons.prems
    have "add_deps S rm m ds (p(m := insert d (p m))) = Inr p'" by auto
    note IH = Cons.IH[OF this]
    from IH have 2: "{x \<in> set ds. rm x \<noteq> None} \<subseteq> S" by (rule conjunct2)
    from False have 3: "{x \<in> set (d # ds). rm x \<noteq> None} = insert d {x \<in> set ds. rm x \<noteq> None}"
      by auto
    from IH[THEN conjunct1]
    have "p' = p(m := p m \<union> insert d {x \<in> set ds. rm x \<noteq> None})"
      by (auto simp: fun_eq_iff)
    with 2 3 dS show ?thesis by simp
  qed
qed

lemma add_deps_Inl:
  "add_deps S rm m ds p = Inl e \<Longrightarrow>
     \<exists>d \<in> set ds. rm d \<noteq> None \<and> d \<notin> S \<and> e = MissingDependency m d"
  by (induction ds arbitrary: p) (auto split: if_splits)

lemma build_prereqs_Inr:
  "build_prereqs S rm ms p = Inr p' \<Longrightarrow>
     p' = (\<lambda>m. p m \<union> (if m \<in> set ms then known_deps rm m else {})) \<and>
     (\<forall>m \<in> set ms. known_deps rm m \<subseteq> S)"
proof (induction ms arbitrary: p)
  case Nil
  then show ?case by simp
next
  case (Cons m ms)
  from Cons.prems obtain q where
    q: "add_deps S rm m (requires_of rm m) p = Inr q" and
    rest: "build_prereqs S rm ms q = Inr p'"
    by (auto split: sum.splits)
  from add_deps_Inr[OF q] have
    q_eq: "q = p(m := p m \<union> known_deps rm m)" and sub: "known_deps rm m \<subseteq> S"
    by (simp_all add: known_deps_def)
  from Cons.IH[OF rest] have
    p'_eq: "p' = (\<lambda>k. q k \<union> (if k \<in> set ms then known_deps rm k else {}))" and
    subs: "\<forall>k \<in> set ms. known_deps rm k \<subseteq> S"
    by simp_all
  have "p' = (\<lambda>k. p k \<union> (if k \<in> set (m # ms) then known_deps rm k else {}))"
    unfolding p'_eq q_eq by (rule ext) auto
  with sub subs show ?case by simp
qed

lemma build_prereqs_Inl:
  "build_prereqs S rm ms p = Inl e \<Longrightarrow>
     \<exists>m \<in> set ms. \<exists>d \<in> known_deps rm m. d \<notin> S \<and> e = MissingDependency m d"
proof (induction ms arbitrary: p)
  case Nil
  then show ?case by simp
next
  case (Cons m ms)
  show ?case
  proof (cases "add_deps S rm m (requires_of rm m) p")
    case (Inl e')
    with Cons.prems have "e' = e" by simp
    with add_deps_Inl[OF Inl] show ?thesis by (auto simp: known_deps_def)
  next
    case (Inr q)
    with Cons.prems have "build_prereqs S rm ms q = Inl e" by simp
    from Cons.IH[OF this] show ?thesis by auto
  qed
qed

lemma original_pos_append:
  "original_pos (xs @ [x]) = (original_pos xs)(x := length xs)"
  by (simp add: original_pos_def enumerate_append_eq)

lemma original_pos_nth:
  "distinct xs \<Longrightarrow> i < length xs \<Longrightarrow> original_pos xs (xs ! i) = i"
proof (induction xs arbitrary: i rule: rev_induct)
  case Nil
  then show ?case by simp
next
  case (snoc x xs)
  show ?case
  proof (cases "i < length xs")
    case True
    with snoc.prems have "xs ! i \<noteq> x" by (auto simp: in_set_conv_nth)
    with True snoc show ?thesis by (simp add: original_pos_append nth_append)
  next
    case False
    with snoc.prems have "i = length xs" by simp
    then show ?thesis by (simp add: original_pos_append)
  qed
qed

lemma original_pos_less:
  "x \<in> set xs \<Longrightarrow> original_pos xs x < length xs"
proof (induction xs rule: rev_induct)
  case Nil
  then show ?case by simp
next
  case (snoc y ys)
  then show ?case by (auto simp: original_pos_append less_Suc_eq)
qed

subsection \<open>The elimination loop keeps its invariant\<close>

lemma relax_distinct:
  "distinct ds \<Longrightarrow>
   relax pos ds (in_degree, heap) =
     (\<lambda>m. if m \<in> set ds then in_degree m - 1 else in_degree m,
      heap @ map (\<lambda>m. (pos m, m)) (filter (\<lambda>m. in_degree m = 1) ds))"
proof (induction ds arbitrary: in_degree heap)
  case Nil
  then show ?case by simp
next
  case (Cons d ds)
  let ?ind = "in_degree(d := in_degree d - 1)"
  from Cons.prems have d: "d \<notin> set ds" and ds: "distinct ds" by simp_all
  have f: "filter (\<lambda>m. ?ind m = 1) ds = filter (\<lambda>m. in_degree m = 1) ds"
    using d by (intro filter_cong) auto
  have g: "(\<lambda>m. if m \<in> set ds then ?ind m - 1 else ?ind m)
             = (\<lambda>m. if m \<in> set (d # ds) then in_degree m - 1 else in_degree m)"
    using d by (auto simp: fun_eq_iff)
  show ?case
    unfolding relax.simps Let_def Cons.IH[OF ds] f g
    by (simp add: heappush_def)
qed

definition kahn_inv ::
  "'a list \<Rightarrow> ('a \<Rightarrow> 'a set) \<Rightarrow> ('a \<Rightarrow> int) \<Rightarrow> (nat \<times> 'a) list \<Rightarrow> 'a list \<Rightarrow> bool" where
  "kahn_inv mod_ids prereqs in_degree heap result \<longleftrightarrow>
     distinct result \<and> set result \<subseteq> set mod_ids \<and>
     distinct (map snd heap) \<and> snd ` set heap \<subseteq> set mod_ids \<and>
     snd ` set heap \<inter> set result = {} \<and>
     (\<forall>m \<in> set mod_ids. in_degree m = int (card (prereqs m - set result))) \<and>
     (\<forall>m \<in> snd ` set heap \<union> set result. prereqs m \<subseteq> set result) \<and>
     (\<forall>m \<in> set mod_ids. prereqs m \<subseteq> set result \<longrightarrow> m \<in> snd ` set heap \<union> set result) \<and>
     (\<forall>i < length result. prereqs (result ! i) \<subseteq> set (take i result))"

lemma distinct_map_remove1:
  "distinct (map f xs) \<Longrightarrow> distinct (map f (remove1 x xs))"
  by (induction xs) (auto simp: image_iff dest: notin_set_remove1)

lemma snd_notin_remove1:
  "distinct (map snd xs) \<Longrightarrow> (p, k) \<in> set xs \<Longrightarrow> k \<notin> snd ` set (remove1 (p, k) xs)"
  by (induction xs) (auto simp: image_iff dest: notin_set_remove1)

lemma kahn_inv_step:
  assumes inv: "kahn_inv mod_ids prereqs in_degree heap result"
    and dist: "distinct mod_ids"
    and fin: "\<And>m. finite (prereqs m)"
    and pop: "heappop heap = Some ((p, mid), heap')"
    and rel: "relax pos (dependents mod_ids prereqs mid) (in_degree, heap') = (in_degree', heap'')"
  shows "kahn_inv mod_ids prereqs in_degree' heap'' (result @ [mid])"
proof -
  let ?D = "dependents mod_ids prereqs mid"
  let ?new = "filter (\<lambda>m. in_degree m = 1) ?D"
  note invs = inv[unfolded kahn_inv_def]
  from invs have i1: "distinct result" by (elim conjE)
  from invs have i2: "set result \<subseteq> set mod_ids" by (elim conjE)
  from invs have i3: "distinct (map snd heap)" by (elim conjE)
  from invs have i4: "snd ` set heap \<subseteq> set mod_ids" by (elim conjE)
  from invs have i5: "snd ` set heap \<inter> set result = {}" by (elim conjE)
  from invs have i6': "\<forall>m \<in> set mod_ids. in_degree m = int (card (prereqs m - set result))"
    by (elim conjE)
  from invs have i7': "\<forall>m \<in> snd ` set heap \<union> set result. prereqs m \<subseteq> set result"
    by (elim conjE)
  from invs have i8': "\<forall>i < length result. prereqs (result ! i) \<subseteq> set (take i result)"
    by (elim conjE)
  from invs have i9': "\<forall>m \<in> set mod_ids. prereqs m \<subseteq> set result
           \<longrightarrow> m \<in> snd ` set heap \<union> set result"
    by (elim conjE)
  have i6: "in_degree m = int (card (prereqs m - set result))" if "m \<in> set mod_ids" for m
    using i6' that by (rule bspec)
  have i7: "prereqs m \<subseteq> set result" if "m \<in> snd ` set heap \<union> set result" for m
    using i7' that by (rule bspec)
  have i8: "prereqs (result ! i) \<subseteq> set (take i result)" if "i < length result" for i
    using i8' that by simp
  have i9: "m \<in> snd ` set heap \<union> set result"
    if "m \<in> set mod_ids" "prereqs m \<subseteq> set result" for m
    using i9' that by simp
  from heappop_Some[OF pop] have mem: "(p, mid) \<in> set heap" and h': "heap' = remove1 (p, mid) heap"
    by simp_all
  from mem have mid_heap: "mid \<in> snd ` set heap" by force
  with i4 have mid_ids: "mid \<in> set mod_ids" by blast
  from mid_heap i5 have mid_res: "mid \<notin> set result" by blast
  from mid_heap i7 have mid_pre: "prereqs mid \<subseteq> set result" by blast
  have Dd: "distinct ?D" using dist by (simp add: dependents_def)
  have Dset: "set ?D = {m \<in> set mod_ids. mid \<in> prereqs m}" by (auto simp: dependents_def)
  from rel relax_distinct[OF Dd, of pos in_degree heap']
  have ind': "in_degree' = (\<lambda>m. if m \<in> set ?D then in_degree m - 1 else in_degree m)"
    and h'': "heap'' = heap' @ map (\<lambda>m. (pos m, m)) ?new"
    by simp_all
  have new_fresh: "m \<notin> snd ` set heap \<union> set result" if "m \<in> set ?D" for m
  proof
    assume "m \<in> snd ` set heap \<union> set result"
    then have "prereqs m \<subseteq> set result" by (rule i7)
    moreover from that Dset have "mid \<in> prereqs m" by simp
    ultimately show False using mid_res by blast
  qed
  have snd_h': "snd ` set heap' \<subseteq> snd ` set heap" unfolding h' using set_remove1_subset[of "(p, mid)" heap] by blast
  have mid_h': "mid \<notin> snd ` set heap'" unfolding h' by (rule snd_notin_remove1[OF i3 mem])
  have snd_new: "map snd (map (\<lambda>m. (pos m, m)) ?new) = ?new" by (simp add: comp_def)
  have set_new: "set ?new \<subseteq> set ?D" by auto
  have c1: "distinct (result @ [mid])" using i1 mid_res by simp
  have c2: "set (result @ [mid]) \<subseteq> set mod_ids" using i2 mid_ids by simp
  have c3: "distinct (map snd heap'')"
  proof -
    have "distinct (map snd heap')" unfolding h' by (rule distinct_map_remove1[OF i3])
    moreover have "distinct ?new" using Dd by simp
    moreover have "set (map snd heap') \<inter> set ?new = {}"
      using snd_h' new_fresh set_new by auto
    ultimately show ?thesis unfolding h'' by (simp add: comp_def)
  qed
  have snd_h'': "snd ` set heap'' = snd ` set heap' \<union> set ?new"
    unfolding h'' by (simp add: image_Un image_image)
  have c4: "snd ` set heap'' \<subseteq> set mod_ids"
    unfolding snd_h'' using snd_h' i4 Dset by auto
  have c5: "snd ` set heap'' \<inter> set (result @ [mid]) = {}"
  proof -
    have "mid \<notin> set ?D" using Dset mid_pre mid_res by auto
    then have "mid \<notin> set ?new" by simp
    moreover have "set ?new \<inter> set result = {}" using new_fresh set_new by blast
    moreover have "snd ` set heap' \<inter> set result = {}" using snd_h' i5 by blast
    ultimately show ?thesis unfolding snd_h'' using mid_h' by auto
  qed
  have c6: "in_degree' m = int (card (prereqs m - set (result @ [mid])))" if m: "m \<in> set mod_ids" for m
  proof (cases "mid \<in> prereqs m")
    case True
    with m Dset have "m \<in> set ?D" by simp
    then have a: "in_degree' m = in_degree m - 1" by (simp add: ind')
    have b: "mid \<in> prereqs m - set result" using True mid_res by simp
    have "prereqs m - set (result @ [mid]) = (prereqs m - set result) - {mid}" by auto
    moreover have "card (prereqs m - set result) = Suc (card ((prereqs m - set result) - {mid}))"
      using b fin[of m] by (intro card.remove) simp_all
    ultimately show ?thesis using a i6[OF m] by simp
  next
    case False
    with m Dset have "m \<notin> set ?D" by simp
    then have a: "in_degree' m = in_degree m" by (simp add: ind')
    have "prereqs m - set (result @ [mid]) = prereqs m - set result" using False by auto
    then show ?thesis using a i6[OF m] by simp
  qed
  have c7: "prereqs m \<subseteq> set (result @ [mid])" if m: "m \<in> snd ` set heap'' \<union> set (result @ [mid])" for m
  proof -
    from m snd_h'' consider "m \<in> snd ` set heap' \<union> set result" | "m = mid" | "m \<in> set ?new"
      by auto
    then show ?thesis
    proof cases
      case 1
      with snd_h' have "m \<in> snd ` set heap \<union> set result" by blast
      from i7[OF this] show ?thesis by auto
    next
      case 2
      with mid_pre show ?thesis by auto
    next
      case 3
      then have mD: "m \<in> set ?D" and one: "in_degree m = 1" by simp_all
      from mD Dset have mids: "m \<in> set mod_ids" and midm: "mid \<in> prereqs m" by simp_all
      from i6[OF mids] one have card1: "card (prereqs m - set result) = 1" by simp
      then obtain x where x: "prereqs m - set result = {x}" by (auto simp: card_1_singleton_iff)
      moreover from midm mid_res have "mid \<in> prereqs m - set result" by simp
      ultimately have "prereqs m - set result = {mid}" by auto
      then show ?thesis by auto
    qed
  qed
  have c8: "prereqs ((result @ [mid]) ! i) \<subseteq> set (take i (result @ [mid]))"
    if i: "i < length (result @ [mid])" for i
  proof (cases "i < length result")
    case True
    with i8[OF True] show ?thesis by (simp add: nth_append)
  next
    case False
    with i have "i = length result" by simp
    with mid_pre show ?thesis by simp
  qed
  have c9: "m \<in> snd ` set heap'' \<union> set (result @ [mid])"
    if m: "m \<in> set mod_ids" and sub: "prereqs m \<subseteq> set (result @ [mid])" for m
  proof (cases "prereqs m \<subseteq> set result")
    case True
    from i9[OF m True] consider "m \<in> set result" | "m = mid" | "m \<noteq> mid" "m \<in> snd ` set heap"
      by blast
    then show ?thesis
    proof cases
      case 3
      then obtain q where "(q, m) \<in> set heap" by auto
      with 3(1) have "(q, m) \<in> set heap'" unfolding h' by simp
      then have "m \<in> snd ` set heap'" by force
      then show ?thesis unfolding snd_h'' by simp
    qed simp_all
  next
    case False
    with sub have midm: "mid \<in> prereqs m" by auto
    with m Dset have mD: "m \<in> set ?D" by simp
    from sub have "prereqs m - set result \<subseteq> {mid}" by auto
    moreover from midm mid_res have "mid \<in> prereqs m - set result" by simp
    ultimately have "prereqs m - set result = {mid}" by blast
    with i6[OF m] have "in_degree m = 1" by simp
    with mD have "m \<in> set ?new" by simp
    then show ?thesis unfolding snd_h'' by simp
  qed
  from c6 have c6': "\<forall>m \<in> set mod_ids. in_degree' m = int (card (prereqs m - set (result @ [mid])))"
    by blast
  from c7 have c7': "\<forall>m \<in> snd ` set heap'' \<union> set (result @ [mid]). prereqs m \<subseteq> set (result @ [mid])"
    by blast
  from c8 have c8': "\<forall>i < length (result @ [mid]).
      prereqs ((result @ [mid]) ! i) \<subseteq> set (take i (result @ [mid]))"
    by blast
  from c9 have c9': "\<forall>m \<in> set mod_ids. prereqs m \<subseteq> set (result @ [mid])
      \<longrightarrow> m \<in> snd ` set heap'' \<union> set (result @ [mid])"
    by blast
  show ?thesis unfolding kahn_inv_def
    by (intro conjI c1 c2 c3 c4 c5 c6' c7' c8' c9')
qed

lemma kahn_loop_correct:
  "distinct mod_ids \<Longrightarrow> (\<forall>m. finite (prereqs m)) \<Longrightarrow>
   kahn_inv mod_ids prereqs in_degree heap result \<Longrightarrow>
     (let r = kahn_loop mod_ids prereqs pos in_degree heap result
      in distinct r \<and> set r \<subseteq> set mod_ids \<and>
         (\<forall>i < length r. prereqs (r ! i) \<subseteq> set (take i r)) \<and>
         (\<forall>m \<in> set mod_ids. prereqs m \<subseteq> set r \<longrightarrow> m \<in> set r))"
proof (induction mod_ids prereqs pos in_degree heap result rule: kahn_loop.induct)
  case (1 mod_ids prereqs pos in_degree heap result)
  note dist = "1.prems"(1) and fin = "1.prems"(2) and inv = "1.prems"(3)
  show ?case
  proof (cases "heappop heap")
    case None
    then have "kahn_loop mod_ids prereqs pos in_degree heap result = result"
      by (subst kahn_loop.simps) simp
    moreover from None have "heap = []" by (cases heap) (simp_all add: Let_def)
    ultimately show ?thesis using inv by (simp add: kahn_inv_def)
  next
    case (Some a)
    obtain p mid heap' where a: "a = ((p, mid), heap')" by (metis prod.collapse)
    obtain in_degree' heap'' where
      rel: "relax pos (dependents mod_ids prereqs mid) (in_degree, heap') = (in_degree', heap'')"
      by (metis prod.collapse)
    from Some a have pop: "heappop heap = Some ((p, mid), heap')" by simp
    have step: "kahn_loop mod_ids prereqs pos in_degree heap result
                  = kahn_loop mod_ids prereqs pos in_degree' heap'' (result @ [mid])"
      by (subst kahn_loop.simps) (simp add: pop rel)
    from fin have fin': "\<And>m. finite (prereqs m)" by simp
    have "kahn_inv mod_ids prereqs in_degree' heap'' (result @ [mid])"
      by (rule kahn_inv_step[OF inv dist fin' pop rel])
    from "1.IH"[OF pop refl refl rel[symmetric] dist fin this] show ?thesis
      unfolding step .
  qed
qed

subsection \<open>The dependency graph and the sorter as a whole\<close>

definition dep_edges :: "'a list \<Rightarrow> ('a \<rightharpoonup> 'a list) \<Rightarrow> ('a \<times> 'a) set" where
  "dep_edges mod_ids requires_map =
     {(d, p). d \<in> set mod_ids \<and> p \<in> set mod_ids \<and> p \<in> known_deps requires_map d}"

definition effective_prereqs :: "'a list \<Rightarrow> ('a \<rightharpoonup> 'a list) \<Rightarrow> 'a \<Rightarrow> 'a set" where
  "effective_prereqs mod_ids requires_map m =
     (if m \<in> set mod_ids then known_deps requires_map m else {})"

lemma finite_known_deps: "finite (known_deps rm m)"
  by (simp add: known_deps_def)

lemma finite_effective_prereqs: "finite (effective_prereqs mod_ids rm m)"
  by (simp add: effective_prereqs_def finite_known_deps)

lemma build_prereqs_ok:
  assumes "\<forall>m \<in> set mod_ids. known_deps rm m \<subseteq> set mod_ids"
  shows "build_prereqs (set mod_ids) rm mod_ids (\<lambda>_. {}) = Inr (effective_prereqs mod_ids rm)"
proof (cases "build_prereqs (set mod_ids) rm mod_ids (\<lambda>_. {})")
  case (Inl e)
  from build_prereqs_Inl[OF Inl] assms show ?thesis by blast
next
  case (Inr p')
  from build_prereqs_Inr[OF Inr] have "p' = effective_prereqs mod_ids rm"
    by (auto simp: effective_prereqs_def fun_eq_iff)
  with Inr show ?thesis by simp
qed

lemma build_prereqs_missing:
  assumes "\<not> (\<forall>m \<in> set mod_ids. known_deps rm m \<subseteq> set mod_ids)"
  shows "\<exists>X Y. build_prereqs (set mod_ids) rm mod_ids (\<lambda>_. {}) = Inl (MissingDependency X Y) \<and>
           X \<in> set mod_ids \<and> Y \<in> known_deps rm X \<and> Y \<notin> set mod_ids"
proof (cases "build_prereqs (set mod_ids) rm mod_ids (\<lambda>_. {})")
  case (Inl e)
  from build_prereqs_Inl[OF Inl] show ?thesis using Inl by blast
next
  case (Inr p')
  from build_prereqs_Inr[OF Inr] assms show ?thesis by blast
qed

lemma heap_comprehension:
  "concat (map (\<lambda>mid. if P mid then [(pos mid, mid)] else []) xs)
     = map (\<lambda>m. (pos m, m)) (filter P xs)"
  by (induction xs) simp_all

lemma kahn_init_inv:
  assumes "distinct mod_ids" and fin: "\<forall>m. finite (prereqs m)"
  shows "kahn_inv mod_ids prereqs (\<lambda>mid. int (card (prereqs mid)))
           (map (\<lambda>m. (pos m, m)) (filter (\<lambda>mid. int (card (prereqs mid)) = 0) mod_ids)) []"
  unfolding kahn_inv_def using assms
  by (auto simp: comp_def distinct_map_filter image_iff)

definition kahn_result :: "'a::linorder list \<Rightarrow> ('a \<Rightarrow> 'a set) \<Rightarrow> 'a list" where
  "kahn_result mod_ids prereqs =
     kahn_loop mod_ids prereqs (original_pos mod_ids) (\<lambda>mid. int (card (prereqs mid)))
       (map (\<lambda>m. (original_pos mod_ids m, m))
          (filter (\<lambda>mid. int (card (prereqs mid)) = 0) mod_ids)) []"

lemma kahn_result_props:
  assumes "distinct mod_ids" and "\<forall>m. finite (prereqs m)"
  shows "distinct (kahn_result mod_ids prereqs)"
    and "set (kahn_result mod_ids prereqs) \<subseteq> set mod_ids"
    and "\<And>i. i < length (kahn_result mod_ids prereqs) \<Longrightarrow>
           prereqs (kahn_result mod_ids prereqs ! i) \<subseteq> set (take i (kahn_result mod_ids prereqs))"
    and "\<And>m. m \<in> set mod_ids \<Longrightarrow> prereqs m \<subseteq> set (kahn_result mod_ids prereqs)
           \<Longrightarrow> m \<in> set (kahn_result mod_ids prereqs)"
  using kahn_loop_correct[OF assms kahn_init_inv[OF assms], of "original_pos mod_ids" "original_pos mod_ids"]
  unfolding kahn_result_def Let_def by blast+

lemma ensure_topological_order_unfold:
  "ensure_topological_order mod_ids requires_map =
     (case build_prereqs (set mod_ids) requires_map mod_ids (\<lambda>_. {}) of
        Inl e \<Rightarrow> Inl e
      | Inr prereqs \<Rightarrow>
          if list_all (\<lambda>mod_id. \<forall>dep \<in> prereqs mod_id.
                         original_pos mod_ids dep < original_pos mod_ids mod_id) mod_ids
          then Inr (mod_ids, [])
          else if length (kahn_result mod_ids prereqs) \<noteq> length mod_ids
               then Inl (CycleDetected [m \<leftarrow> mod_ids. m \<notin> set (kahn_result mod_ids prereqs)])
               else Inr (kahn_result mod_ids prereqs,
                         reorder_notes mod_ids (kahn_result mod_ids prereqs)))"
  unfolding ensure_topological_order_def kahn_result_def Let_def heap_comprehension ..

lemma original_pos_nth_self: "x \<in> set xs \<Longrightarrow> xs ! original_pos xs x = x"
proof (induction xs rule: rev_induct)
  case Nil
  then show ?case by simp
next
  case (snoc y ys)
  show ?case
  proof (cases "x = y")
    case True
    then show ?thesis by (simp add: original_pos_append)
  next
    case False
    with snoc.prems have x: "x \<in> set ys" by simp
    from original_pos_less[OF x] snoc.IH[OF x] False show ?thesis
      by (simp add: original_pos_append nth_append)
  qed
qed

lemma rank_no_cycle:
  assumes step: "\<And>m p. (m, p) \<in> E \<Longrightarrow> m \<in> A \<Longrightarrow> p \<in> A \<and> f p < (f m :: nat)"
  shows "(m, p) \<in> E\<^sup>+ \<Longrightarrow> m \<in> A \<Longrightarrow> p \<in> A \<and> f p < f m"
proof (induction rule: trancl_induct)
  case (base y)
  then show ?case using step by blast
next
  case (step y z)
  from step.IH[OF step.prems] have y: "y \<in> A" and lt: "f y < f m" by simp_all
  from assms[OF step.hyps(2) y] lt show ?case by auto
qed

lemma dep_edges_effective:
  "(d, p) \<in> dep_edges mod_ids rm \<longleftrightarrow>
     d \<in> set mod_ids \<and> p \<in> set mod_ids \<and> p \<in> effective_prereqs mod_ids rm d"
  by (auto simp: dep_edges_def effective_prereqs_def)

lemma kahn_result_rank:
  assumes dist: "distinct mod_ids"
    and e: "(m, p) \<in> dep_edges mod_ids rm"
    and m: "m \<in> set (kahn_result mod_ids (effective_prereqs mod_ids rm))"
  shows "p \<in> set (kahn_result mod_ids (effective_prereqs mod_ids rm)) \<and>
         original_pos (kahn_result mod_ids (effective_prereqs mod_ids rm)) p
           < original_pos (kahn_result mod_ids (effective_prereqs mod_ids rm)) m"
proof -
  let ?P = "effective_prereqs mod_ids rm"
  let ?r = "kahn_result mod_ids ?P"
  have fin: "\<forall>m. finite (?P m)" by (simp add: finite_effective_prereqs)
  note props = kahn_result_props[OF dist fin]
  from m obtain i where i: "i < length ?r" and mi: "?r ! i = m" by (auto simp: in_set_conv_nth)
  from e have "p \<in> ?P m" by (simp add: dep_edges_effective)
  with props(3)[OF i] mi have "p \<in> set (take i ?r)" by auto
  then obtain j where j: "j < length (take i ?r)" and pj: "take i ?r ! j = p"
    by (auto simp: in_set_conv_nth)
  from j i have ji: "j < i" and jl: "j < length ?r" by simp_all
  from pj ji have pj': "?r ! j = p" by simp
  from original_pos_nth[OF props(1) i] mi have "original_pos ?r m = i" by simp
  moreover from original_pos_nth[OF props(1) jl] pj' have "original_pos ?r p = j" by simp
  moreover from jl pj' have "p \<in> set ?r" by (auto simp: in_set_conv_nth)
  ultimately show ?thesis using ji by simp
qed

lemma cycle_not_eliminated:
  assumes dist: "distinct mod_ids" and cyc: "(c, c) \<in> (dep_edges mod_ids rm)\<^sup>+"
  shows "c \<notin> set (kahn_result mod_ids (effective_prereqs mod_ids rm))"
proof
  let ?r = "kahn_result mod_ids (effective_prereqs mod_ids rm)"
  assume c: "c \<in> set ?r"
  have "c \<in> set ?r \<and> original_pos ?r c < original_pos ?r c"
    by (rule rank_no_cycle[where E = "dep_edges mod_ids rm" and A = "set ?r", OF _ cyc c])
       (rule kahn_result_rank[OF dist])
  then show False by simp
qed

lemma eliminated_closed:
  assumes dist: "distinct mod_ids" and r: "(m, x) \<in> (dep_edges mod_ids rm)\<^sup>*"
    and m: "m \<in> set (kahn_result mod_ids (effective_prereqs mod_ids rm))"
  shows "x \<in> set (kahn_result mod_ids (effective_prereqs mod_ids rm))"
  using r m
proof (induction rule: rtrancl_induct)
  case base
  then show ?case .
next
  case (step y z)
  from kahn_result_rank[OF dist step.hyps(2) step.IH[OF step.prems]] show ?case by simp
qed

lemma stuck_reaches_cycle:
  assumes dist: "distinct mod_ids"
    and present: "\<forall>d \<in> set mod_ids. known_deps rm d \<subseteq> set mod_ids"
    and m: "m \<in> set mod_ids"
    and stuck: "m \<notin> set (kahn_result mod_ids (effective_prereqs mod_ids rm))"
  shows "\<exists>x. (m, x) \<in> (dep_edges mod_ids rm)\<^sup>* \<and> (x, x) \<in> (dep_edges mod_ids rm)\<^sup>+"
proof -
  let ?P = "effective_prereqs mod_ids rm"
  let ?r = "kahn_result mod_ids ?P"
  let ?E = "dep_edges mod_ids rm"
  define Q where "Q = {x \<in> set mod_ids. x \<notin> set ?r \<and> (m, x) \<in> ?E\<^sup>*}"
  define stuck_edges where "stuck_edges = {(p, z). z \<in> Q \<and> p \<in> Q \<and> (z, p) \<in> ?E}"
  have fin: "\<forall>m. finite (?P m)" by (simp add: finite_effective_prereqs)
  note props = kahn_result_props[OF dist fin]
  have succ: "\<exists>p \<in> Q. (z, p) \<in> ?E" if z: "z \<in> Q" for z
  proof -
    from z have zi: "z \<in> set mod_ids" and zr: "z \<notin> set ?r" and mz: "(m, z) \<in> ?E\<^sup>*"
      by (simp_all add: Q_def)
    from props(4)[OF zi] zr have "\<not> ?P z \<subseteq> set ?r" by blast
    then obtain p where p: "p \<in> ?P z" and pr: "p \<notin> set ?r" by blast
    from p zi present have pi: "p \<in> set mod_ids" by (auto simp: effective_prereqs_def)
    with p zi have e: "(z, p) \<in> ?E" by (simp add: dep_edges_effective)
    with mz have "(m, p) \<in> ?E\<^sup>*" by simp
    with pi pr have "p \<in> Q" by (simp add: Q_def)
    with e show ?thesis by blast
  qed
  have mQ: "m \<in> Q" using m stuck by (simp add: Q_def)
  have "finite Q" by (simp add: Q_def)
  then have "finite (Q \<times> Q)" by simp
  moreover have "stuck_edges \<subseteq> Q \<times> Q" by (auto simp: stuck_edges_def)
  ultimately have fb: "finite stuck_edges" by (rule rev_finite_subset)
  have "\<not> acyclic stuck_edges"
  proof
    assume "acyclic stuck_edges"
    with fb have "wf stuck_edges" by (rule finite_acyclic_wf)
    from wfE_min[OF this mQ] obtain z where z: "z \<in> Q" and min: "\<And>y. (y, z) \<in> stuck_edges \<Longrightarrow> y \<notin> Q"
      by blast
    from succ[OF z] obtain p where p: "p \<in> Q" and e: "(z, p) \<in> ?E" by blast
    with z have "(p, z) \<in> stuck_edges" by (simp add: stuck_edges_def)
    from min[OF this] p show False by simp
  qed
  then obtain x where x: "(x, x) \<in> stuck_edges\<^sup>+" by (auto simp: acyclic_def)
  have sub: "stuck_edges \<subseteq> ?E\<inverse>" by (auto simp: stuck_edges_def)
  from trancl_mono[OF x sub] have "(x, x) \<in> (?E\<inverse>)\<^sup>+" .
  then have cyc: "(x, x) \<in> ?E\<^sup>+" by (simp add: trancl_converse)
  from x have "x \<in> Domain stuck_edges" by (metis Domain.DomainI tranclD)
  then have "x \<in> Q" by (auto simp: stuck_edges_def)
  then have "(m, x) \<in> ?E\<^sup>*" by (simp add: Q_def)
  with cyc show ?thesis by blast
qed

subsection \<open>Claims about the sorter\<close>

lemma present_known_deps:
  "(\<forall>d \<in> set mod_ids. \<forall>p \<in> set (requires_of rm d). rm p \<noteq> None \<longrightarrow> p \<in> set mod_ids)
     \<longleftrightarrow> (\<forall>d \<in> set mod_ids. known_deps rm d \<subseteq> set mod_ids)"
  by (auto simp: known_deps_def)

lemma add_deps_first_missing:
  "(\<forall>d \<in> set rpre. rm d \<noteq> None \<longrightarrow> d \<in> S) \<Longrightarrow> rm Y \<noteq> None \<Longrightarrow> Y \<notin> S \<Longrightarrow>
     add_deps S rm m (rpre @ Y # rpost) p = Inl (MissingDependency m Y)"
  by (induction rpre arbitrary: p) auto

lemma build_prereqs_first_missing:
  assumes "\<forall>m \<in> set pre. known_deps rm m \<subseteq> S"
    and "\<And>p'. add_deps S rm X (requires_of rm X) p' = Inl e"
  shows "build_prereqs S rm (pre @ X # post) p = Inl e"
  using assms(1)
proof (induction pre arbitrary: p)
  case Nil
  show ?case by (simp add: assms(2))
next
  case (Cons m pre)
  show ?case
  proof (cases "add_deps S rm m (requires_of rm m) p")
    case (Inl e')
    from add_deps_Inl[OF Inl] Cons.prems show ?thesis by (auto simp: known_deps_def)
  next
    case (Inr q)
    with Cons show ?thesis by simp
  qed
qed

text \<open>
  Claim C4, as amended. For a duplicate-free input list (what \<open>parse_mods_txt\<close>
  produces): whenever \<open>ensure_topological_order\<close> returns an order, the returned list is
  a permutation of the input list, and every effective dependency edge (a mod \<open>d\<close> of the
  list requiring a prerequisite \<open>p\<close> that is in the list and whose metadata is known) has
  \<open>p\<close> at a strictly smaller index than \<open>d\<close> in the returned order.
\<close>

theorem ensure_topological_order_valid:
  assumes ok: "ensure_topological_order mod_ids requires_map = Inr (result, notes)"
    and dist: "distinct mod_ids"
  shows "mset result = mset mod_ids \<and>
         (\<forall>d \<in> set mod_ids. \<forall>p \<in> set (requires_of requires_map d).
            p \<in> set mod_ids \<and> requires_map p \<noteq> None \<longrightarrow>
              (\<exists>i j. j < i \<and> i < length result \<and> result ! j = p \<and> result ! i = d))"
proof -
  let ?P = "effective_prereqs mod_ids requires_map"
  let ?r = "kahn_result mod_ids ?P"
  let ?check = "list_all (\<lambda>mod_id. \<forall>dep \<in> ?P mod_id.
                   original_pos mod_ids dep < original_pos mod_ids mod_id) mod_ids"
  have present: "\<forall>m \<in> set mod_ids. known_deps requires_map m \<subseteq> set mod_ids"
  proof (rule ccontr)
    assume "\<not> ?thesis"
    from build_prereqs_missing[OF this] ok show False
      by (auto simp: ensure_topological_order_unfold)
  qed
  note build = build_prereqs_ok[OF present]
  have fin: "\<forall>m. finite (?P m)" by (simp add: finite_effective_prereqs)
  note props = kahn_result_props[OF dist fin]
  show ?thesis
  proof (cases ?check)
    case True
    with ok build have res: "result = mod_ids"
      by (simp add: ensure_topological_order_unfold)
    have "\<exists>i j. j < i \<and> i < length result \<and> result ! j = p \<and> result ! i = d"
      if d: "d \<in> set mod_ids" and p: "p \<in> set (requires_of requires_map d)"
        and pm: "p \<in> set mod_ids" and known: "requires_map p \<noteq> None" for d p
    proof -
      from d p known have "p \<in> ?P d" by (simp add: effective_prereqs_def known_deps_def)
      with True d have lt: "original_pos mod_ids p < original_pos mod_ids d"
        by (auto simp: list_all_iff)
      from original_pos_less[OF d] original_pos_nth_self[OF d] original_pos_nth_self[OF pm] lt
      show ?thesis unfolding res by blast
    qed
    with res show ?thesis by blast
  next
    case False
    with ok build have len: "length ?r = length mod_ids" and res: "result = ?r"
      by (auto simp: ensure_topological_order_unfold split: if_splits)
    from props(1) len dist have "card (set ?r) = card (set mod_ids)"
      by (simp add: distinct_card)
    with props(2) have sets: "set ?r = set mod_ids"
      by (intro card_subset_eq) simp_all
    with props(1) dist have perm: "mset ?r = mset mod_ids"
      by (simp add: set_eq_iff_mset_eq_distinct)
    have "\<exists>i j. j < i \<and> i < length ?r \<and> ?r ! j = p \<and> ?r ! i = d"
      if d: "d \<in> set mod_ids" and p: "p \<in> set (requires_of requires_map d)"
        and pm: "p \<in> set mod_ids" and known: "requires_map p \<noteq> None" for d p
    proof -
      from d p known have pP: "p \<in> ?P d" by (simp add: effective_prereqs_def known_deps_def)
      from d sets have "d \<in> set ?r" by simp
      then obtain i where i: "i < length ?r" and di: "?r ! i = d"
        by (metis in_set_conv_nth)
      from props(3)[OF i] di pP have "p \<in> set (take i ?r)" by auto
      then obtain j where j: "j < length (take i ?r)" and pj: "take i ?r ! j = p"
        by (auto simp: in_set_conv_nth)
      from j i have "j < i" by simp
      with pj i di show ?thesis by auto
    qed
    with perm res show ?thesis by blast
  qed
qed

text \<open>
  Claim C5, as amended. If no mod of the list declares a prerequisite that is known but
  missing from the list, and the input order places every known, present prerequisite
  strictly before each mod that requires it, then \<open>ensure_topological_order\<close> returns
  exactly the input list together with an empty list of reorder notes. Positions are
  those of the source's \<open>original_pos\<close> dictionary, the list index on a duplicate-free
  list (lemma \<open>original_pos_nth\<close>).
\<close>

theorem ensure_topological_order_unchanged:
  assumes present: "\<forall>d \<in> set mod_ids. \<forall>p \<in> set (requires_of requires_map d).
                      requires_map p \<noteq> None \<longrightarrow> p \<in> set mod_ids"
    and ordered: "\<forall>d \<in> set mod_ids. \<forall>p \<in> set (requires_of requires_map d).
                    requires_map p \<noteq> None \<and> p \<in> set mod_ids \<longrightarrow>
                      original_pos mod_ids p < original_pos mod_ids d"
  shows "ensure_topological_order mod_ids requires_map = Inr (mod_ids, [])"
proof -
  from present have "\<forall>d \<in> set mod_ids. known_deps requires_map d \<subseteq> set mod_ids"
    by (simp only: present_known_deps)
  note build = build_prereqs_ok[OF this]
  have "list_all (\<lambda>mod_id. \<forall>dep \<in> effective_prereqs mod_ids requires_map mod_id.
           original_pos mod_ids dep < original_pos mod_ids mod_id) mod_ids"
    using present ordered by (auto simp: list_all_iff effective_prereqs_def known_deps_def)
  with build show ?thesis by (simp add: ensure_topological_order_unfold)
qed

text \<open>
  Claim C6, as amended. During edge construction, a mod \<open>X\<close> of the enabled list with a
  declared prerequisite \<open>Y\<close> whose metadata is known but which is not in the enabled list
  makes the run fail with the error that names a mod and its known-but-not-enabled
  prerequisite: the first such pair the loops reach, going through the enabled list in
  order and through each mod's declared prerequisites in order. So the error names \<open>X\<close>
  and \<open>Y\<close> themselves when no such pair comes before them. A prerequisite whose metadata
  is unknown never raises the error and never becomes an edge.
\<close>

theorem missing_dependency_rejected:
  "(\<forall>X \<in> set mod_ids. \<forall>Y \<in> set (requires_of requires_map X).
      requires_map Y \<noteq> None \<and> Y \<notin> set mod_ids \<longrightarrow>
        (\<exists>X' Y'. ensure_topological_order mod_ids requires_map = Inl (MissingDependency X' Y') \<and>
                  X' \<in> set mod_ids \<and> Y' \<in> set (requires_of requires_map X') \<and>
                  requires_map Y' \<noteq> None \<and> Y' \<notin> set mod_ids)) \<and>
   (\<forall>pre X post rpre Y rpost.
      mod_ids = pre @ X # post \<and> requires_of requires_map X = rpre @ Y # rpost \<and>
      (\<forall>m \<in> set pre. \<forall>d \<in> set (requires_of requires_map m).
          requires_map d \<noteq> None \<longrightarrow> d \<in> set mod_ids) \<and>
      (\<forall>d \<in> set rpre. requires_map d \<noteq> None \<longrightarrow> d \<in> set mod_ids) \<and>
      requires_map Y \<noteq> None \<and> Y \<notin> set mod_ids \<longrightarrow>
        ensure_topological_order mod_ids requires_map = Inl (MissingDependency X Y)) \<and>
   (\<forall>X Y. ensure_topological_order mod_ids requires_map = Inl (MissingDependency X Y) \<longrightarrow>
        X \<in> set mod_ids \<and> Y \<in> set (requires_of requires_map X) \<and>
        requires_map Y \<noteq> None \<and> Y \<notin> set mod_ids) \<and>
   (\<forall>prereqs X Y. build_prereqs (set mod_ids) requires_map mod_ids (\<lambda>_. {}) = Inr prereqs \<and>
        Y \<in> prereqs X \<longrightarrow> requires_map Y \<noteq> None \<and> Y \<in> set (requires_of requires_map X))"
  (is "?fails \<and> ?first \<and> ?only_known \<and> ?no_edge")
proof -
  have ?fails
  proof (intro ballI impI)
    fix X Y
    assume "X \<in> set mod_ids" "Y \<in> set (requires_of requires_map X)"
      "requires_map Y \<noteq> None \<and> Y \<notin> set mod_ids"
    then have "\<not> (\<forall>m \<in> set mod_ids. known_deps requires_map m \<subseteq> set mod_ids)"
      by (auto simp: known_deps_def)
    from build_prereqs_missing[OF this]
    show "\<exists>X' Y'. ensure_topological_order mod_ids requires_map = Inl (MissingDependency X' Y') \<and>
                    X' \<in> set mod_ids \<and> Y' \<in> set (requires_of requires_map X') \<and>
                    requires_map Y' \<noteq> None \<and> Y' \<notin> set mod_ids"
      by (auto simp: ensure_topological_order_unfold known_deps_def)
  qed
  moreover have ?first
  proof (intro allI impI)
    fix pre X post rpre Y rpost
    assume a: "mod_ids = pre @ X # post \<and> requires_of requires_map X = rpre @ Y # rpost \<and>
        (\<forall>m \<in> set pre. \<forall>d \<in> set (requires_of requires_map m).
            requires_map d \<noteq> None \<longrightarrow> d \<in> set mod_ids) \<and>
        (\<forall>d \<in> set rpre. requires_map d \<noteq> None \<longrightarrow> d \<in> set mod_ids) \<and>
        requires_map Y \<noteq> None \<and> Y \<notin> set mod_ids"
    then have split: "mod_ids = pre @ X # post"
      and req: "requires_of requires_map X = rpre @ Y # rpost"
      and a1: "\<forall>m \<in> set pre. \<forall>d \<in> set (requires_of requires_map m).
            requires_map d \<noteq> None \<longrightarrow> d \<in> set mod_ids"
      and a2: "\<forall>d \<in> set rpre. requires_map d \<noteq> None \<longrightarrow> d \<in> set mod_ids"
      and a3: "requires_map Y \<noteq> None" and a4: "Y \<notin> set mod_ids"
      by blast+
    from a1 have pre: "\<forall>m \<in> set pre. known_deps requires_map m \<subseteq> set mod_ids"
      by (auto simp: known_deps_def)
    have "\<And>p'. add_deps (set mod_ids) requires_map X (requires_of requires_map X) p'
                    = Inl (MissingDependency X Y)"
      unfolding req by (rule add_deps_first_missing[OF a2 a3 a4])
    from build_prereqs_first_missing[OF pre this, of post "\<lambda>_. {}"]
    have "build_prereqs (set mod_ids) requires_map (pre @ X # post) (\<lambda>_. {})
            = Inl (MissingDependency X Y)" .
    then have "build_prereqs (set mod_ids) requires_map mod_ids (\<lambda>_. {})
            = Inl (MissingDependency X Y)" by (simp only: split[symmetric])
    then show "ensure_topological_order mod_ids requires_map = Inl (MissingDependency X Y)"
      by (simp add: ensure_topological_order_unfold)
  qed
  moreover have ?only_known
  proof (intro allI impI)
    fix X Y
    assume e: "ensure_topological_order mod_ids requires_map = Inl (MissingDependency X Y)"
    have "build_prereqs (set mod_ids) requires_map mod_ids (\<lambda>_. {}) = Inl (MissingDependency X Y)"
    proof (cases "build_prereqs (set mod_ids) requires_map mod_ids (\<lambda>_. {})")
      case (Inl e')
      with e show ?thesis by (simp add: ensure_topological_order_unfold)
    next
      case (Inr q)
      with e show ?thesis by (simp add: ensure_topological_order_unfold split: if_splits)
    qed
    from build_prereqs_Inl[OF this]
    show "X \<in> set mod_ids \<and> Y \<in> set (requires_of requires_map X) \<and>
          requires_map Y \<noteq> None \<and> Y \<notin> set mod_ids"
      by (auto simp: known_deps_def)
  qed
  moreover have ?no_edge
  proof (intro allI impI)
    fix prereqs X Y
    assume a: "build_prereqs (set mod_ids) requires_map mod_ids (\<lambda>_. {}) = Inr prereqs \<and> Y \<in> prereqs X"
    then have b: "build_prereqs (set mod_ids) requires_map mod_ids (\<lambda>_. {}) = Inr prereqs"
      and y: "Y \<in> prereqs X" by simp_all
    from build_prereqs_Inr[OF b] y
    show "requires_map Y \<noteq> None \<and> Y \<in> set (requires_of requires_map X)"
      by (auto simp: known_deps_def split: if_splits)
  qed
  ultimately show ?thesis by (intro conjI)
qed

text \<open>
  Claim C7, as amended. If the effective dependency graph of a duplicate-free list has a
  cycle (and no prerequisite is known but missing, which would fail earlier), then
  \<open>ensure_topological_order\<close> fails with the cycle error instead of returning an order.
  The list the error carries is the list of mods the elimination did not remove, in input
  order; as a set these are exactly the mods that lie on a cycle or depend on one, so
  every mod of the cycle is named.
\<close>

theorem cycle_detected:
  assumes dist: "distinct mod_ids"
    and present: "\<forall>d \<in> set mod_ids. \<forall>p \<in> set (requires_of requires_map d).
                    requires_map p \<noteq> None \<longrightarrow> p \<in> set mod_ids"
    and cyc: "(c, c) \<in> (dep_edges mod_ids requires_map)\<^sup>+"
  shows "\<exists>cycle_mods.
           ensure_topological_order mod_ids requires_map = Inl (CycleDetected cycle_mods) \<and>
           cycle_mods = [m \<leftarrow> mod_ids.
                          m \<notin> set (kahn_result mod_ids (effective_prereqs mod_ids requires_map))] \<and>
           set cycle_mods = {m \<in> set mod_ids. \<exists>x. (m, x) \<in> (dep_edges mod_ids requires_map)\<^sup>* \<and>
                                                   (x, x) \<in> (dep_edges mod_ids requires_map)\<^sup>+} \<and>
           c \<in> set cycle_mods"
proof -
  let ?P = "effective_prereqs mod_ids requires_map"
  let ?r = "kahn_result mod_ids ?P"
  let ?E = "dep_edges mod_ids requires_map"
  from present have pres: "\<forall>d \<in> set mod_ids. known_deps requires_map d \<subseteq> set mod_ids"
    by (simp only: present_known_deps)
  note build = build_prereqs_ok[OF pres]
  have fin: "\<forall>m. finite (?P m)" by (simp add: finite_effective_prereqs)
  note props = kahn_result_props[OF dist fin]
  have c_ids: "c \<in> set mod_ids"
  proof -
    from cyc obtain y where "(c, y) \<in> ?E" by (metis tranclD)
    then show ?thesis by (simp add: dep_edges_def)
  qed
  have not_fast: "\<not> list_all (\<lambda>mod_id. \<forall>dep \<in> ?P mod_id.
                      original_pos mod_ids dep < original_pos mod_ids mod_id) mod_ids"
  proof
    assume chk: "list_all (\<lambda>mod_id. \<forall>dep \<in> ?P mod_id.
                      original_pos mod_ids dep < original_pos mod_ids mod_id) mod_ids"
    have "c \<in> (UNIV :: 'a set) \<and> original_pos mod_ids c < original_pos mod_ids c"
    proof (rule rank_no_cycle[where E = ?E and A = UNIV, OF _ cyc])
      fix m p assume "(m, p) \<in> ?E" "m \<in> (UNIV :: 'a set)"
      with chk show "p \<in> UNIV \<and> original_pos mod_ids p < original_pos mod_ids m"
        by (auto simp: list_all_iff dep_edges_effective)
    qed simp
    then show False by simp
  qed
  have c_stuck: "c \<notin> set ?r" by (rule cycle_not_eliminated[OF dist cyc])
  with props(2) c_ids have "set ?r \<subset> set mod_ids" by blast
  then have "card (set ?r) < card (set mod_ids)" by (intro psubset_card_mono) simp_all
  with props(1) dist have len: "length ?r \<noteq> length mod_ids" by (simp add: distinct_card)
  have res: "ensure_topological_order mod_ids requires_map
               = Inl (CycleDetected [m \<leftarrow> mod_ids. m \<notin> set ?r])"
    using build not_fast len by (simp add: ensure_topological_order_unfold)
  have char: "(m \<notin> set ?r) \<longleftrightarrow> (\<exists>x. (m, x) \<in> ?E\<^sup>* \<and> (x, x) \<in> ?E\<^sup>+)"
    if m: "m \<in> set mod_ids" for m
  proof
    assume "m \<notin> set ?r"
    from stuck_reaches_cycle[OF dist pres m this]
    show "\<exists>x. (m, x) \<in> ?E\<^sup>* \<and> (x, x) \<in> ?E\<^sup>+" .
  next
    assume "\<exists>x. (m, x) \<in> ?E\<^sup>* \<and> (x, x) \<in> ?E\<^sup>+"
    then obtain x where mx: "(m, x) \<in> ?E\<^sup>*" and xx: "(x, x) \<in> ?E\<^sup>+" by blast
    show "m \<notin> set ?r"
    proof
      assume "m \<in> set ?r"
      from eliminated_closed[OF dist mx this] cycle_not_eliminated[OF dist xx]
      show False by simp
    qed
  qed
  have "set [m \<leftarrow> mod_ids. m \<notin> set ?r]
          = {m \<in> set mod_ids. \<exists>x. (m, x) \<in> ?E\<^sup>* \<and> (x, x) \<in> ?E\<^sup>+}"
    using char by auto
  moreover have "c \<in> set [m \<leftarrow> mod_ids. m \<notin> set ?r]" using c_ids c_stuck by simp
  ultimately show ?thesis using res by blast
qed

subsection \<open>Concrete runs of the sorter\<close>

theorem ensure_topological_order_valid_witness:
  "ensure_topological_order [''A'', ''B''] [''A'' \<mapsto> [''B''], ''B'' \<mapsto> []]
     = Inr ([''B'', ''A''], [(''A'', 0, 1), (''B'', 1, 0)]) \<and>
   mset [''B'', ''A''] = mset [''A'', ''B''] \<and>
   (\<exists>i j. j < i \<and> i < length [''B'', ''A''] \<and> [''B'', ''A''] ! j = ''B'' \<and> [''B'', ''A''] ! i = ''A'')"
proof -
  let ?rm = "[''A'' \<mapsto> [''B''], ''B'' \<mapsto> []]"
  have e: "ensure_topological_order [''A'', ''B''] ?rm
             = Inr ([''B'', ''A''], [(''A'', 0, 1), (''B'', 1, 0)])"
    by code_simp
  have d: "distinct [''A'', ''B'']" by simp
  note v = ensure_topological_order_valid[OF e d]
  from v have "mset [''B'', ''A''] = mset [''A'', ''B'']" by (rule conjunct1)
  moreover from v have "\<forall>d \<in> set [''A'', ''B'']. \<forall>p \<in> set (requires_of ?rm d).
            p \<in> set [''A'', ''B''] \<and> ?rm p \<noteq> None \<longrightarrow>
              (\<exists>i j. j < i \<and> i < length [''B'', ''A''] \<and> [''B'', ''A''] ! j = p \<and> [''B'', ''A''] ! i = d)"
    by (rule conjunct2)
  then have "\<exists>i j. j < i \<and> i < length [''B'', ''A''] \<and> [''B'', ''A''] ! j = ''B'' \<and> [''B'', ''A''] ! i = ''A''"
    by (simp add: requires_of_def)
  ultimately show ?thesis using e by simp
qed

theorem ensure_topological_order_unchanged_witness:
  "ensure_topological_order [''B'', ''A'', ''C''] [''A'' \<mapsto> [''B'', ''Z''], ''B'' \<mapsto> []]
     = Inr ([''B'', ''A'', ''C''], [])"
  by (rule ensure_topological_order_unchanged) (simp_all add: requires_of_def original_pos_def)

theorem ensure_topological_order_unchanged_counterexample:
  "\<not> ((\<forall>d \<in> set [''X'']. \<forall>p \<in> set (requires_of [''X'' \<mapsto> [''Y''], ''Y'' \<mapsto> []] d).
          [''X'' \<mapsto> [''Y''], ''Y'' \<mapsto> []] p \<noteq> None \<and> p \<in> set [''X''] \<longrightarrow>
            original_pos [''X''] p < original_pos [''X''] d)
        \<longrightarrow> ensure_topological_order [''X''] [''X'' \<mapsto> [''Y''], ''Y'' \<mapsto> []]
              = Inr ([''X''], []))"
proof -
  have "ensure_topological_order [''X''] [''X'' \<mapsto> [''Y''], ''Y'' \<mapsto> []]
          = Inl (MissingDependency ''X'' ''Y'')"
    by code_simp
  then show ?thesis by (simp add: requires_of_def)
qed

theorem missing_dependency_rejected_witness:
  "ensure_topological_order [''X'', ''W''] [''X'' \<mapsto> [''U'', ''Y''], ''Y'' \<mapsto> [], ''W'' \<mapsto> [''Y'']]
     = Inl (MissingDependency ''X'' ''Y'')"
proof -
  let ?rm = "[''X'' \<mapsto> [''U'', ''Y''], ''Y'' \<mapsto> [], ''W'' \<mapsto> [''Y'']]"
  from missing_dependency_rejected[of "[''X'', ''W'']" ?rm]
  have "\<forall>pre X post rpre Y rpost.
      [''X'', ''W''] = pre @ X # post \<and> requires_of ?rm X = rpre @ Y # rpost \<and>
      (\<forall>m \<in> set pre. \<forall>d \<in> set (requires_of ?rm m). ?rm d \<noteq> None \<longrightarrow> d \<in> set [''X'', ''W'']) \<and>
      (\<forall>d \<in> set rpre. ?rm d \<noteq> None \<longrightarrow> d \<in> set [''X'', ''W'']) \<and>
      ?rm Y \<noteq> None \<and> Y \<notin> set [''X'', ''W''] \<longrightarrow>
        ensure_topological_order [''X'', ''W''] ?rm = Inl (MissingDependency X Y)"
    by (elim conjE)
  from this[rule_format, of "[]" "''X''" "[''W'']" "[''U'']" "''Y''" "[]"]
  show ?thesis by (simp add: requires_of_def)
qed

theorem cycle_detected_witness:
  "ensure_topological_order [''A'', ''B'', ''C'']
       [''A'' \<mapsto> [''B''], ''B'' \<mapsto> [''C''], ''C'' \<mapsto> [''A'']]
     = Inl (CycleDetected [''A'', ''B'', ''C'']) \<and>
   (\<exists>cycle_mods.
      ensure_topological_order [''A'', ''B'', ''C'']
          [''A'' \<mapsto> [''B''], ''B'' \<mapsto> [''C''], ''C'' \<mapsto> [''A'']]
        = Inl (CycleDetected cycle_mods) \<and>
      ''A'' \<in> set cycle_mods \<and> ''B'' \<in> set cycle_mods \<and> ''C'' \<in> set cycle_mods)"
proof -
  let ?ids = "[''A'', ''B'', ''C'']"
  let ?rm = "[''A'' \<mapsto> [''B''], ''B'' \<mapsto> [''C''], ''C'' \<mapsto> [''A'']]"
  let ?E = "dep_edges ?ids ?rm"
  have d: "distinct ?ids" by simp
  have p: "\<forall>d \<in> set ?ids. \<forall>p \<in> set (requires_of ?rm d). ?rm p \<noteq> None \<longrightarrow> p \<in> set ?ids"
    by (simp add: requires_of_def)
  have ab: "(''A'', ''B'') \<in> ?E" and bc: "(''B'', ''C'') \<in> ?E" and ca: "(''C'', ''A'') \<in> ?E"
    by (simp_all add: dep_edges_def known_deps_def requires_of_def)
  from ab bc ca have a: "(''A'', ''A'') \<in> ?E\<^sup>+" by (meson trancl.intros)
  from ab bc ca have b: "(''B'', ''B'') \<in> ?E\<^sup>+" by (meson trancl.intros)
  from ab bc ca have c: "(''C'', ''C'') \<in> ?E\<^sup>+" by (meson trancl.intros)
  from cycle_detected[OF d p a] cycle_detected[OF d p b] cycle_detected[OF d p c]
  have "\<exists>cycle_mods. ensure_topological_order ?ids ?rm = Inl (CycleDetected cycle_mods) \<and>
      ''A'' \<in> set cycle_mods \<and> ''B'' \<in> set cycle_mods \<and> ''C'' \<in> set cycle_mods"
    by (elim exE conjE) (simp only: sum.inject topo_error.inject, blast)
  moreover have "ensure_topological_order ?ids ?rm = Inl (CycleDetected [''A'', ''B'', ''C''])"
    by code_simp
  ultimately show ?thesis by (intro conjI)
qed

subsection \<open>Inputs on which the claims as first worded fail\<close>

text \<open>
  Claim C4 as first worded spoke of every returned order. With a repeated mod the
  function returns an order in which \<open>B\<close> stands before its known, present prerequisite
  \<open>C\<close>: the two entries of \<open>A\<close> are popped one after the other and each decrements the
  counter of \<open>B\<close>.
\<close>

theorem ensure_topological_order_valid_counterexample:
  "ensure_topological_order [''A'', ''A'', ''B'', ''C'']
       [''B'' \<mapsto> [''A'', ''C''], ''A'' \<mapsto> [], ''C'' \<mapsto> []]
     = Inr ([''A'', ''A'', ''B'', ''C''], []) \<and>
   ''B'' \<in> set [''A'', ''A'', ''B'', ''C''] \<and> ''C'' \<in> set [''A'', ''A'', ''B'', ''C''] \<and>
   ''C'' \<in> set (requires_of [''B'' \<mapsto> [''A'', ''C''], ''A'' \<mapsto> [], ''C'' \<mapsto> []] ''B'') \<and>
   [''B'' \<mapsto> [''A'', ''C''], ''A'' \<mapsto> [], ''C'' \<mapsto> []] ''C'' = Some [] \<and>
   \<not> (\<exists>i j. j < i \<and> i < length [''A'', ''A'', ''B'', ''C''] \<and>
            [''A'', ''A'', ''B'', ''C''] ! j = ''C'' \<and> [''A'', ''A'', ''B'', ''C''] ! i = ''B'')"
proof -
  have e: "ensure_topological_order [''A'', ''A'', ''B'', ''C'']
       [''B'' \<mapsto> [''A'', ''C''], ''A'' \<mapsto> [], ''C'' \<mapsto> []]
     = Inr ([''A'', ''A'', ''B'', ''C''], [])"
    by code_simp
  have n: "\<not> (\<exists>i j. j < i \<and> i < length [''A'', ''A'', ''B'', ''C''] \<and>
            [''A'', ''A'', ''B'', ''C''] ! j = ''C'' \<and> [''A'', ''A'', ''B'', ''C''] ! i = ''B'')"
  proof
    assume "\<exists>i j. j < i \<and> i < length [''A'', ''A'', ''B'', ''C''] \<and>
            [''A'', ''A'', ''B'', ''C''] ! j = ''C'' \<and> [''A'', ''A'', ''B'', ''C''] ! i = ''B''"
    then obtain i j where ji: "j < i" and i: "i < 4"
      and cj: "[''A'', ''A'', ''B'', ''C''] ! j = ''C''" and bi: "[''A'', ''A'', ''B'', ''C''] ! i = ''B''"
      by auto
    from i bi have "i = 2" by (auto simp: nth_Cons' less_Suc_eq numeral_eq_Suc split: if_splits)
    with ji cj show False by (auto simp: nth_Cons' less_Suc_eq numeral_eq_Suc split: if_splits)
  qed
  show ?thesis using e n by (simp add: requires_of_def)
qed

text \<open>
  Claim C6 as first worded had the error name \<open>X\<close> and \<open>Y\<close> for every mod \<open>X\<close> with a
  known prerequisite \<open>Y\<close> that is not enabled. The run stops at the first such pair: here
  \<open>X\<close> requires the known, not enabled \<open>Y1\<close>, and the error names \<open>W\<close> and \<open>Y2\<close>.
\<close>

theorem missing_dependency_rejected_counterexample:
  "''X'' \<in> set [''W'', ''X''] \<and>
   ''Y1'' \<in> set (requires_of [''W'' \<mapsto> [''Y2'', ''Y1''], ''X'' \<mapsto> [''Y1''], ''Y1'' \<mapsto> [], ''Y2'' \<mapsto> []] ''X'') \<and>
   [''W'' \<mapsto> [''Y2'', ''Y1''], ''X'' \<mapsto> [''Y1''], ''Y1'' \<mapsto> [], ''Y2'' \<mapsto> []] ''Y1'' = Some [] \<and>
   ''Y1'' \<notin> set [''W'', ''X''] \<and>
   ensure_topological_order [''W'', ''X'']
       [''W'' \<mapsto> [''Y2'', ''Y1''], ''X'' \<mapsto> [''Y1''], ''Y1'' \<mapsto> [], ''Y2'' \<mapsto> []]
     = Inl (MissingDependency ''W'' ''Y2'')"
proof -
  have "ensure_topological_order [''W'', ''X'']
       [''W'' \<mapsto> [''Y2'', ''Y1''], ''X'' \<mapsto> [''Y1''], ''Y1'' \<mapsto> [], ''Y2'' \<mapsto> []]
     = Inl (MissingDependency ''W'' ''Y2'')"
    by code_simp
  then show ?thesis by (simp add: requires_of_def)
qed

text \<open>
  Claim C7 as first worded spoke of every input list. With a repeated mod a cycle can go
  unnoticed: \<open>A\<close> and \<open>B\<close> require each other, the two entries of \<open>R\<close> bring the counter
  of \<open>A\<close> to zero, and the lengths agree at the end.
\<close>

theorem cycle_detected_counterexample:
  "(''A'', ''A'') \<in> (dep_edges [''R'', ''R'', ''A'', ''B'']
       [''A'' \<mapsto> [''R'', ''B''], ''B'' \<mapsto> [''A''], ''R'' \<mapsto> []])\<^sup>+ \<and>
   ensure_topological_order [''R'', ''R'', ''A'', ''B'']
       [''A'' \<mapsto> [''R'', ''B''], ''B'' \<mapsto> [''A''], ''R'' \<mapsto> []]
     = Inr ([''R'', ''R'', ''A'', ''B''], [])"
proof -
  let ?E = "dep_edges [''R'', ''R'', ''A'', ''B'']
       [''A'' \<mapsto> [''R'', ''B''], ''B'' \<mapsto> [''A''], ''R'' \<mapsto> []]"
  have ab: "(''A'', ''B'') \<in> ?E" and ba: "(''B'', ''A'') \<in> ?E"
    by (simp_all add: dep_edges_def known_deps_def requires_of_def)
  from ab ba have "(''A'', ''A'') \<in> ?E\<^sup>+" by (meson trancl.intros)
  moreover have "ensure_topological_order [''R'', ''R'', ''A'', ''B'']
       [''A'' \<mapsto> [''R'', ''B''], ''B'' \<mapsto> [''A''], ''R'' \<mapsto> []]
     = Inr ([''R'', ''R'', ''A'', ''B''], [])"
    by code_simp
  ultimately show ?thesis by (rule conjI)
qed

section \<open>Text as Python sees it\<close>

text \<open>
  Files are modelled by their text, a \<open>string\<close>; a \<open>char\<close> stands for the code point
  of the same number, so the model covers text of code points up to U+00FF. Code points
  beyond that, and the replacement of undecodable bytes, are outside it.

  \<open>isspace\<close> is \<open>str.isspace\<close> on one character, which is also what \<open>\s\<close> matches in
  the regular expressions of the scripts: the characters 9 to 13 and 28 to 32, the next
  line character U+0085 and the no-break space U+00A0.
\<close>

definition isspace :: "char \<Rightarrow> bool" where
  "isspace c \<longleftrightarrow>
     (let n = (of_char c :: nat)
      in (9 \<le> n \<and> n \<le> 13) \<or> (28 \<le> n \<and> n \<le> 32) \<or> n = 133 \<or> n = 160)"

text \<open>\<open>str.strip()\<close> and \<open>str.rstrip(chars)\<close>.\<close>

definition lstrip :: "string \<Rightarrow> string" where
  "lstrip s = dropWhile isspace s"

definition rstrip :: "string \<Rightarrow> string" where
  "rstrip s = rev (dropWhile isspace (rev s))"

definition strip :: "string \<Rightarrow> string" where
  "strip s = rstrip (lstrip s)"

definition rstrip_chars :: "char set \<Rightarrow> string \<Rightarrow> string" where
  "rstrip_chars cs s = rev (dropWhile (\<lambda>c. c \<in> cs) (rev s))"

definition LF :: char where "LF = CHR 0x0A"
definition CR :: char where "CR = CHR 0x0D"

text \<open>
  The flag \<open>(?i)\<close>: letters are compared after lower-casing. \<open>ci_prefix p s\<close> matches the
  lower-case pattern \<open>p\<close> at the start of \<open>s\<close> and returns the rest of \<open>s\<close>.
\<close>

definition lower :: "char \<Rightarrow> char" where
  "lower c = (let n = (of_char c :: nat) in if 65 \<le> n \<and> n \<le> 90 then char_of (n + 32) else c)"

fun ci_prefix :: "string \<Rightarrow> string \<Rightarrow> string option" where
  "ci_prefix [] s = Some s"
| "ci_prefix (p # ps) [] = None"
| "ci_prefix (p # ps) (c # cs) = (if lower c = p then ci_prefix ps cs else None)"

text \<open>
  \<open>re.match(r"[A-Za-z][A-Za-z0-9_]*\s*=", s)\<close>: a letter, word characters, white space,
  an equals sign. Each starred class is followed by a character outside it, so the
  greedy match is the only one.
\<close>

definition is_alpha :: "char \<Rightarrow> bool" where
  "is_alpha c \<longleftrightarrow>
     (let n = (of_char c :: nat) in (65 \<le> n \<and> n \<le> 90) \<or> (97 \<le> n \<and> n \<le> 122))"

definition is_word :: "char \<Rightarrow> bool" where
  "is_word c \<longleftrightarrow>
     (let n = (of_char c :: nat) in is_alpha c \<or> (48 \<le> n \<and> n \<le> 57) \<or> n = 95)"

definition looks_like_key :: "string \<Rightarrow> bool" where
  "looks_like_key s =
     (case s of
        [] \<Rightarrow> False
      | c # cs \<Rightarrow> is_alpha c \<and>
          (case dropWhile isspace (dropWhile is_word cs) of
             [] \<Rightarrow> False
           | d # _ \<Rightarrow> d = CHR ''=''))"

text \<open>
  \<open>re.match(r"(?i)^Mods\s*=", stripped)\<close> and its siblings for the other keys; \<open>key\<close> is
  the key in lower case.
\<close>

definition key_match :: "string \<Rightarrow> string \<Rightarrow> bool" where
  "key_match key s =
     (case ci_prefix key s of
        None \<Rightarrow> False
      | Some r \<Rightarrow> (case dropWhile isspace r of [] \<Rightarrow> False | d # _ \<Rightarrow> d = CHR ''=''))"

text \<open>
  \<open>str.splitlines(keepends=True)\<close>: a line ends at a line feed, a carriage return (with
  the line feed that follows it, if any), or one of the characters 11, 12, 28, 29, 30
  and U+0085; every line keeps its terminator, and the last line may have none.
\<close>

definition is_linebreak :: "char \<Rightarrow> bool" where
  "is_linebreak c \<longleftrightarrow>
     (let n = (of_char c :: nat)
      in (10 \<le> n \<and> n \<le> 13) \<or> (28 \<le> n \<and> n \<le> 30) \<or> n = 133)"

fun splitlines_from :: "string \<Rightarrow> string \<Rightarrow> string list" where
  "splitlines_from cur [] = (if cur = [] then [] else [cur])"
| "splitlines_from cur [c] = [cur @ [c]]"
| "splitlines_from cur (c # d # cs) =
     (if c = CR \<and> d = LF then (cur @ [c, d]) # splitlines_from [] cs
      else if is_linebreak c then (cur @ [c]) # splitlines_from [] (d # cs)
      else splitlines_from (cur @ [c]) (d # cs))"

definition splitlines :: "string \<Rightarrow> string list" where
  "splitlines s = splitlines_from [] s"

text \<open>
  \<open>Path.read_text\<close> opens the file in text mode, which hands \<open>\r\n\<close> and \<open>\r\<close> to
  the program as \<open>\n\<close>.
\<close>

fun universal_newlines :: "string \<Rightarrow> string" where
  "universal_newlines [] = []"
| "universal_newlines [c] = [if c = CR then LF else c]"
| "universal_newlines (c # d # cs) =
     (if c = CR \<and> d = LF then LF # universal_newlines cs
      else if c = CR then LF # universal_newlines (d # cs)
      else c # universal_newlines (d # cs))"


section \<open>Rewriting keys of the server INI\<close>

text \<open>
  \<open>update_ini\<close> of process\_mods.py and \<open>rewrite_ini_keys\<close> of
  init/update\_server\_ini.py. Each reads the file, removes NUL characters, walks the
  lines with a few flags, appends the keys it has not written and joins the lines again.
  The models map the text of the file to the text that is written back.
\<close>

definition NUL :: char where "NUL = CHR 0x00"

definition read_text :: "string \<Rightarrow> string" where
  "read_text content = universal_newlines content"

text \<open>
  \<open>_is_continuation\<close> (\<open>_is_continuation_line\<close> in update\_server\_ini.py): non-empty
  after removing the line end, not starting with \<open>#\<close>, not looking like a key.
\<close>

definition startswith_hash :: "string \<Rightarrow> bool" where
  "startswith_hash s = (case s of [] \<Rightarrow> False | c # _ \<Rightarrow> c = CHR ''#'')"

definition is_continuation :: "string \<Rightarrow> bool" where
  "is_continuation s0 =
     (let s = rstrip_chars {CR, LF} s0
      in s \<noteq> [] \<and> \<not> startswith_hash s \<and> \<not> looks_like_key s)"

text \<open>
  The loop state of \<open>update_ini\<close>. The variable \<open>current_skip_key\<close> of the source is
  assigned but never read, and is left out.
\<close>

record ini_state =
  output_lines :: "string list"
  wrote_mods :: bool
  wrote_workshop :: bool
  skip_continuation :: bool

definition update_ini_line :: "string \<Rightarrow> string \<Rightarrow> ini_state \<Rightarrow> string \<Rightarrow> ini_state" where
  "update_ini_line mods_csv workshop_csv st raw =
     (let stripped = rstrip_chars {CR, LF} raw
      in if skip_continuation st \<and> is_continuation stripped then st
         else if key_match ''mods'' stripped then
           st\<lparr>output_lines := output_lines st @ [''Mods='' @ mods_csv @ [LF]],
              wrote_mods := True, skip_continuation := True\<rparr>
         else if key_match ''workshopitems'' stripped then
           st\<lparr>output_lines := output_lines st @ [''WorkshopItems='' @ workshop_csv @ [LF]],
              wrote_workshop := True, skip_continuation := True\<rparr>
         else st\<lparr>output_lines := output_lines st @ [raw], skip_continuation := False\<rparr>)"

definition update_ini :: "string \<Rightarrow> string \<Rightarrow> string \<Rightarrow> string" where
  "update_ini content mods_csv workshop_csv =
     (let original = filter (\<lambda>c. c \<noteq> NUL) (read_text content);
          st0 = \<lparr>output_lines = [], wrote_mods = False, wrote_workshop = False,
                 skip_continuation = False\<rparr>;
          st = foldl (update_ini_line mods_csv workshop_csv) st0 (splitlines original);
          out1 = (if \<not> wrote_mods st then output_lines st @ [''Mods='' @ mods_csv @ [LF]]
                  else output_lines st);
          out2 = (if \<not> wrote_workshop st then out1 @ [''WorkshopItems='' @ workshop_csv @ [LF]]
                  else out1)
      in concat out2)"


text \<open>update_server_ini.py\<close>

record ini_keys_state =
  out_lines :: "string list"
  wrote_mods_k :: bool
  wrote_workshop_k :: bool
  wrote_map_k :: bool
  skipping :: bool

definition rewrite_ini_keys_line ::
  "string \<Rightarrow> string \<Rightarrow> string option \<Rightarrow> ini_keys_state \<Rightarrow> string \<Rightarrow> ini_keys_state" where
  "rewrite_ini_keys_line mods_csv workshop_csv map_csv st raw =
     (let stripped = rstrip_chars {CR, LF} raw;
          keep = st\<lparr>out_lines := out_lines st @ [raw], skipping := False\<rparr>
      in if skipping st \<and> is_continuation stripped then st
         else if key_match ''mods'' stripped then
           st\<lparr>out_lines := out_lines st @ [''Mods='' @ mods_csv @ [LF]],
              wrote_mods_k := True, skipping := True\<rparr>
         else if key_match ''workshopitems'' stripped then
           st\<lparr>out_lines := out_lines st @ [''WorkshopItems='' @ workshop_csv @ [LF]],
              wrote_workshop_k := True, skipping := True\<rparr>
         else (case map_csv of
                 None \<Rightarrow> keep
               | Some mc \<Rightarrow>
                   if key_match ''map'' stripped then
                     st\<lparr>out_lines := out_lines st @ [''Map='' @ mc @ [LF]],
                        wrote_map_k := True, skipping := True\<rparr>
                   else keep))"

definition rewrite_ini_keys :: "string \<Rightarrow> string \<Rightarrow> string \<Rightarrow> string option \<Rightarrow> string" where
  "rewrite_ini_keys content mods_csv workshop_csv map_csv =
     (let original = filter (\<lambda>c. c \<noteq> NUL) (read_text content);
          st0 = \<lparr>out_lines = [], wrote_mods_k = False, wrote_workshop_k = False,
                 wrote_map_k = False, skipping = False\<rparr>;
          st = foldl (rewrite_ini_keys_line mods_csv workshop_csv map_csv) st0 (splitlines original);
          out1 = (if \<not> wrote_mods_k st then out_lines st @ [''Mods='' @ mods_csv @ [LF]]
                  else out_lines st);
          out2 = (if \<not> wrote_workshop_k st then out1 @ [''WorkshopItems='' @ workshop_csv @ [LF]]
                  else out1);
          out3 = (case map_csv of
                    None \<Rightarrow> out2
                  | Some mc \<Rightarrow> if \<not> wrote_map_k st then out2 @ [''Map='' @ mc @ [LF]] else out2)
      in concat out3)"

section \<open>The rewrite as the specification words it\<close>

text \<open>
  The specification describes the rewrite line by line: a line that matches a target key
  is replaced by the single new line of that key, the continuation lines that follow it
  are discarded up to the first line that is not one, and every other line is kept as it
  is. \<open>target\<close> gives the replacement for a key line (applied to the line without its
  line end) and \<open>None\<close> for any other line.
\<close>

function continuation_safe_rewrite :: "(string \<Rightarrow> string option) \<Rightarrow> string list \<Rightarrow> string list" where
  "continuation_safe_rewrite target [] = []"
| "continuation_safe_rewrite target (l # ls) =
     (case target (rstrip_chars {CR, LF} l) of
        Some new_line \<Rightarrow> new_line # continuation_safe_rewrite target (dropWhile is_continuation ls)
      | None \<Rightarrow> l # continuation_safe_rewrite target ls)"
  by pat_completeness auto
termination
  by (relation "measure (\<lambda>(target, ls). length ls)")
     (auto simp: length_dropWhile_le less_Suc_eq_le)

text \<open>The target keys of the two functions.\<close>

definition ini_target :: "string \<Rightarrow> string \<Rightarrow> string \<Rightarrow> string option" where
  "ini_target mods_csv workshop_csv stripped =
     (if key_match ''mods'' stripped then Some (''Mods='' @ mods_csv @ [LF])
      else if key_match ''workshopitems'' stripped then Some (''WorkshopItems='' @ workshop_csv @ [LF])
      else None)"

definition ini_keys_target :: "string \<Rightarrow> string \<Rightarrow> string option \<Rightarrow> string \<Rightarrow> string option" where
  "ini_keys_target mods_csv workshop_csv map_csv stripped =
     (if key_match ''mods'' stripped then Some (''Mods='' @ mods_csv @ [LF])
      else if key_match ''workshopitems'' stripped then Some (''WorkshopItems='' @ workshop_csv @ [LF])
      else (case map_csv of
              None \<Rightarrow> None
            | Some mc \<Rightarrow> if key_match ''map'' stripped then Some (''Map='' @ mc @ [LF]) else None))"

text \<open>
  The loops of the source keep a flag instead of looking ahead. \<open>skip_rewrite\<close> is that
  loop without the bookkeeping of which keys were written; it connects the two models to
  the specification's wording.
\<close>

fun skip_rewrite :: "(string \<Rightarrow> string option) \<Rightarrow> bool \<Rightarrow> string list \<Rightarrow> string list" where
  "skip_rewrite target skip [] = []"
| "skip_rewrite target skip (raw # rest) =
     (if skip \<and> is_continuation (rstrip_chars {CR, LF} raw) then skip_rewrite target True rest
      else case target (rstrip_chars {CR, LF} raw) of
             Some new_line \<Rightarrow> new_line # skip_rewrite target True rest
           | None \<Rightarrow> raw # skip_rewrite target False rest)"

lemma rstrip_chars_idem: "rstrip_chars cs (rstrip_chars cs s) = rstrip_chars cs s"
proof -
  have "dropWhile (\<lambda>c. c \<in> cs) (dropWhile (\<lambda>c. c \<in> cs) xs) = dropWhile (\<lambda>c. c \<in> cs) xs" for xs
    by (metis dropWhile_idem)
  then show ?thesis by (simp add: rstrip_chars_def)
qed

lemma is_continuation_rstrip: "is_continuation (rstrip_chars {CR, LF} s) = is_continuation s"
  by (simp add: is_continuation_def rstrip_chars_idem)

lemma skip_rewrite_spec:
  "skip_rewrite target False ls = continuation_safe_rewrite target ls \<and>
   skip_rewrite target True ls = continuation_safe_rewrite target (dropWhile is_continuation ls)"
proof (induction ls)
  case Nil
  show ?case by simp
next
  case (Cons l ls)
  from Cons have F: "skip_rewrite target False ls = continuation_safe_rewrite target ls"
    and T: "skip_rewrite target True ls = continuation_safe_rewrite target (dropWhile is_continuation ls)"
    by simp_all
  have 1: "skip_rewrite target False (l # ls) = continuation_safe_rewrite target (l # ls)"
    by (simp add: F T split: option.splits)
  have 2: "skip_rewrite target True (l # ls)
             = continuation_safe_rewrite target (dropWhile is_continuation (l # ls))"
  proof (cases "is_continuation l")
    case True
    then show ?thesis by (simp add: is_continuation_rstrip T)
  next
    case False
    then show ?thesis by (simp add: is_continuation_rstrip F T split: option.splits)
  qed
  from 1 2 show ?case ..
qed

subsection \<open>The loops compute the specification's rewrite\<close>

lemma output_lines_foldl:
  "output_lines (foldl (update_ini_line m w) st ls)
     = output_lines st @ skip_rewrite (ini_target m w) (skip_continuation st) ls"
proof (induction ls arbitrary: st)
  case Nil
  show ?case by simp
next
  case (Cons l ls)
  have "output_lines (update_ini_line m w st l)
          @ skip_rewrite (ini_target m w) (skip_continuation (update_ini_line m w st l)) ls
        = output_lines st @ skip_rewrite (ini_target m w) (skip_continuation st) (l # ls)"
    by (simp add: update_ini_line_def ini_target_def Let_def)
  with Cons.IH[of "update_ini_line m w st l"] show ?case by simp
qed

subsection \<open>A key line is never a continuation line\<close>

lemma is_alpha_lower:
  assumes "is_alpha (lower c)"
  shows "is_alpha c"
proof (cases "65 \<le> (of_char c :: nat) \<and> (of_char c :: nat) \<le> 90")
  case True
  then show ?thesis by (simp add: is_alpha_def Let_def)
next
  case False
  then have "lower c = c" unfolding lower_def Let_def by (simp only: if_False)
  with assms show ?thesis by simp
qed


lemma is_alpha_word: "is_alpha c \<Longrightarrow> is_word c"
  by (simp add: is_word_def Let_def)

lemma ci_prefix_Cons:
  "ci_prefix (p # ps) (c # cs) = Some r \<Longrightarrow> lower c = p \<and> ci_prefix ps cs = Some r"
  by (cases "lower c = p") simp_all

lemma ci_prefix_Some:
  "ci_prefix p s = Some r \<Longrightarrow> \<exists>pre. s = pre @ r \<and> map lower pre = p"
proof (induction p s rule: ci_prefix.induct)
  case (1 s)
  then have "s = r" by simp
  then have "s = [] @ r \<and> map lower [] = ([] :: string)" by simp
  then show ?case by (rule exI)
next
  case (2 p ps)
  then show ?case by simp
next
  case (3 p ps c cs)
  from ci_prefix_Cons[OF "3.prems"] have c: "lower c = p" and r: "ci_prefix ps cs = Some r"
    by (rule conjunct1, rule conjunct2)
  from "3.IH"[OF c r] obtain pre where p1: "cs = pre @ r" and p2: "map lower pre = ps"
    by (elim exE conjE)
  have "c # cs = (c # pre) @ r" using p1 by simp
  moreover have "map lower (c # pre) = p # ps" using p2 c by simp
  ultimately have "c # cs = (c # pre) @ r \<and> map lower (c # pre) = p # ps" by (rule conjI)
  then show ?case by (rule exI)
qed

lemma isspace_not_word: "isspace c \<Longrightarrow> \<not> is_word c"
  unfolding isspace_def is_word_def is_alpha_def Let_def by arith

lemma eq_not_word: "\<not> is_word (CHR ''='')"
  by code_simp


lemma dropWhile_isspace_eq:
  assumes "dropWhile isspace r = CHR ''='' # t"
  shows "dropWhile is_word r = r"
proof (cases r)
  case Nil
  then show ?thesis by simp
next
  case (Cons x xs)
  have "\<not> is_word x"
  proof (cases "isspace x")
    case True
    then show ?thesis by (rule isspace_not_word)
  next
    case False
    with Cons assms have "x = CHR ''=''" by simp
    then show ?thesis by (simp only: eq_not_word not_False_eq_True)
  qed
  with Cons show ?thesis by simp
qed

lemma key_match_looks_like_key:
  assumes km: "key_match key s" and ne: "key \<noteq> []" and al: "\<forall>c \<in> set key. is_alpha c"
  shows "looks_like_key s"
proof -
  obtain r where cp: "ci_prefix key s = Some r"
    using km by (cases "ci_prefix key s") (simp_all add: key_match_def)
  from km cp have eq: "case dropWhile isspace r of [] \<Rightarrow> False | d # _ \<Rightarrow> d = CHR ''=''"
    by (simp add: key_match_def)
  obtain t where dr: "dropWhile isspace r = CHR ''='' # t"
    using eq by (cases "dropWhile isspace r") simp_all
  from ci_prefix_Some[OF cp] obtain pre where s: "s = pre @ r" and pre: "map lower pre = key"
    by (elim exE conjE)
  from pre ne obtain c cs where pc: "pre = c # cs" by (cases pre) simp_all
  have alpha: "is_alpha x" if "x \<in> set pre" for x
  proof -
    from that have "lower x \<in> set (map lower pre)" by simp
    with pre al have "is_alpha (lower x)" by simp
    then show ?thesis by (rule is_alpha_lower)
  qed
  have c_alpha: "is_alpha c" by (rule alpha) (simp add: pc)
  have words: "\<forall>x \<in> set cs. is_word x"
  proof
    fix x assume "x \<in> set cs"
    then have "x \<in> set pre" by (simp add: pc)
    then show "is_word x" by (intro is_alpha_word alpha)
  qed
  have "dropWhile is_word (cs @ r) = dropWhile is_word r"
    by (intro dropWhile_append2) (simp add: words)
  also have "\<dots> = r" by (rule dropWhile_isspace_eq[OF dr])
  finally have dw: "dropWhile is_word (cs @ r) = r" .
  have "looks_like_key (c # cs @ r)"
    unfolding looks_like_key_def by (simp add: c_alpha dw dr)
  then show ?thesis by (simp add: s pc)
qed

lemma key_match_not_continuation:
  assumes "key_match key (rstrip_chars {CR, LF} raw)" "key \<noteq> []" "\<forall>c \<in> set key. is_alpha c"
  shows "\<not> is_continuation (rstrip_chars {CR, LF} raw)"
proof -
  from key_match_looks_like_key[OF assms]
  have "looks_like_key (rstrip_chars {CR, LF} raw)" .
  then show ?thesis by (simp add: is_continuation_def rstrip_chars_idem)
qed

lemma mods_is_key: "''mods'' \<noteq> [] \<and> (\<forall>c \<in> set ''mods''. is_alpha c)"
  by code_simp

lemma workshopitems_is_key:
  "''workshopitems'' \<noteq> [] \<and> (\<forall>c \<in> set ''workshopitems''. is_alpha c)"
  by code_simp

lemma map_is_key: "''map'' \<noteq> [] \<and> (\<forall>c \<in> set ''map''. is_alpha c)"
  by code_simp

lemma mods_not_continuation:
  "key_match ''mods'' (rstrip_chars {CR, LF} raw) \<Longrightarrow> \<not> is_continuation (rstrip_chars {CR, LF} raw)"
  using key_match_not_continuation[of "''mods''" raw] mods_is_key by (simp del: set_simps list.set)

lemma key_match_Nil: "key \<noteq> [] \<Longrightarrow> \<not> key_match key []"
  by (cases key) (simp_all add: key_match_def)

lemma key_match_first:
  "key_match (p # ps) (c # cs) \<Longrightarrow> lower c = p"
  by (cases "lower c = p") (simp_all add: key_match_def)

lemma mods_not_workshopitems:
  assumes "key_match ''mods'' s"
  shows "\<not> key_match ''workshopitems'' s"
proof (cases s)
  case Nil
  then show ?thesis by (simp add: key_match_Nil)
next
  case (Cons c cs)
  from assms have "lower c = CHR ''m''" unfolding Cons by (rule key_match_first)
  moreover have "lower c = CHR ''w''" if "key_match ''workshopitems'' s"
    using that unfolding Cons by (rule key_match_first)
  ultimately show ?thesis by auto
qed

lemma mods_not_map:
  assumes "key_match ''mods'' s"
  shows "\<not> key_match ''map'' s"
proof (cases s)
  case Nil
  then show ?thesis by (simp add: key_match_Nil)
next
  case (Cons c cs)
  from assms have m: "ci_prefix ''mods'' (c # cs) \<noteq> None"
    unfolding Cons by (cases "ci_prefix ''mods'' (c # cs)") (simp_all add: key_match_def)
  show ?thesis
  proof
    assume "key_match ''map'' s"
    then have a: "ci_prefix ''map'' (c # cs) \<noteq> None"
      unfolding Cons by (cases "ci_prefix ''map'' (c # cs)") (simp_all add: key_match_def)
    from m obtain d ds where cs: "cs = d # ds" and "lower d = CHR ''o''"
      by (cases cs) (simp_all split: if_splits)
    with a show False by (simp split: if_splits)
  qed
qed

lemma workshopitems_not_map:
  assumes "key_match ''workshopitems'' s"
  shows "\<not> key_match ''map'' s"
proof (cases s)
  case Nil
  then show ?thesis by (simp add: key_match_Nil)
next
  case (Cons c cs)
  from assms have "lower c = CHR ''w''" unfolding Cons by (rule key_match_first)
  moreover have "lower c = CHR ''m''" if "key_match ''map'' s"
    using that unfolding Cons by (rule key_match_first)
  ultimately show ?thesis by auto
qed

lemma workshopitems_not_continuation:
  "key_match ''workshopitems'' (rstrip_chars {CR, LF} raw)
     \<Longrightarrow> \<not> is_continuation (rstrip_chars {CR, LF} raw)"
  using key_match_not_continuation[of "''workshopitems''" raw] workshopitems_is_key
  by (simp del: set_simps list.set)

lemma map_not_continuation:
  "key_match ''map'' (rstrip_chars {CR, LF} raw)
     \<Longrightarrow> \<not> is_continuation (rstrip_chars {CR, LF} raw)"
  using key_match_not_continuation[of "''map''" raw] map_is_key
  by (simp del: set_simps list.set)

subsection \<open>Which keys were written\<close>

definition has_key :: "string \<Rightarrow> string list \<Rightarrow> bool" where
  "has_key key ls = list_ex (\<lambda>l. key_match key (rstrip_chars {CR, LF} l)) ls"

lemma has_key_simps:
  "has_key key [] = False"
  "has_key key (l # ls) = (key_match key (rstrip_chars {CR, LF} l) \<or> has_key key ls)"
  by (simp_all add: has_key_def)

lemma wrote_mods_line:
  "wrote_mods (update_ini_line m w st l)
     = (wrote_mods st \<or> key_match ''mods'' (rstrip_chars {CR, LF} l))"
  using mods_not_continuation[of l]
  by (cases "key_match ''mods'' (rstrip_chars {CR, LF} l)")
     (simp_all add: update_ini_line_def Let_def)

lemma wrote_workshop_line:
  "wrote_workshop (update_ini_line m w st l)
     = (wrote_workshop st \<or> key_match ''workshopitems'' (rstrip_chars {CR, LF} l))"
  using workshopitems_not_continuation[of l] mods_not_workshopitems[of "rstrip_chars {CR, LF} l"]
  by (cases "key_match ''workshopitems'' (rstrip_chars {CR, LF} l)")
     (auto simp add: update_ini_line_def Let_def)

lemma wrote_mods_foldl:
  "wrote_mods (foldl (update_ini_line m w) st ls) = (wrote_mods st \<or> has_key ''mods'' ls)"
  by (induction ls arbitrary: st) (simp_all add: has_key_simps wrote_mods_line)

lemma wrote_workshop_foldl:
  "wrote_workshop (foldl (update_ini_line m w) st ls)
     = (wrote_workshop st \<or> has_key ''workshopitems'' ls)"
  by (induction ls arbitrary: st) (simp_all add: has_key_simps wrote_workshop_line)

lemma update_ini_refines:
  "update_ini content mods_csv workshop_csv =
     (let ls = splitlines (filter (\<lambda>c. c \<noteq> NUL) (read_text content))
      in concat (continuation_safe_rewrite (ini_target mods_csv workshop_csv) ls)
         @ (if has_key ''mods'' ls then [] else ''Mods='' @ mods_csv @ [LF])
         @ (if has_key ''workshopitems'' ls then [] else ''WorkshopItems='' @ workshop_csv @ [LF]))"
  unfolding update_ini_def Let_def
  by (simp add: output_lines_foldl wrote_mods_foldl wrote_workshop_foldl skip_rewrite_spec)

lemma out_lines_foldl:
  "out_lines (foldl (rewrite_ini_keys_line m w mp) st ls)
     = out_lines st @ skip_rewrite (ini_keys_target m w mp) (skipping st) ls"
proof (induction ls arbitrary: st)
  case Nil
  show ?case by simp
next
  case (Cons l ls)
  have "out_lines (rewrite_ini_keys_line m w mp st l)
          @ skip_rewrite (ini_keys_target m w mp) (skipping (rewrite_ini_keys_line m w mp st l)) ls
        = out_lines st @ skip_rewrite (ini_keys_target m w mp) (skipping st) (l # ls)"
    by (cases mp) (simp_all add: rewrite_ini_keys_line_def ini_keys_target_def Let_def)
  with Cons.IH[of "rewrite_ini_keys_line m w mp st l"] show ?case by simp
qed

lemma wrote_mods_k_line:
  "wrote_mods_k (rewrite_ini_keys_line m w mp st l)
     = (wrote_mods_k st \<or> key_match ''mods'' (rstrip_chars {CR, LF} l))"
  using mods_not_continuation[of l]
  by (cases "key_match ''mods'' (rstrip_chars {CR, LF} l)"; cases mp)
     (simp_all add: rewrite_ini_keys_line_def Let_def)

lemma wrote_workshop_k_line:
  "wrote_workshop_k (rewrite_ini_keys_line m w mp st l)
     = (wrote_workshop_k st \<or> key_match ''workshopitems'' (rstrip_chars {CR, LF} l))"
  using workshopitems_not_continuation[of l] mods_not_workshopitems[of "rstrip_chars {CR, LF} l"]
  by (cases "key_match ''workshopitems'' (rstrip_chars {CR, LF} l)"; cases mp)
     (auto simp add: rewrite_ini_keys_line_def Let_def)

lemma wrote_map_k_line:
  "wrote_map_k (rewrite_ini_keys_line m w (Some mc) st l)
     = (wrote_map_k st \<or> key_match ''map'' (rstrip_chars {CR, LF} l))"
  using map_not_continuation[of l] mods_not_map[of "rstrip_chars {CR, LF} l"]
    workshopitems_not_map[of "rstrip_chars {CR, LF} l"]
  by (cases "key_match ''map'' (rstrip_chars {CR, LF} l)")
     (auto simp add: rewrite_ini_keys_line_def Let_def)

lemma wrote_mods_k_foldl:
  "wrote_mods_k (foldl (rewrite_ini_keys_line m w mp) st ls)
     = (wrote_mods_k st \<or> has_key ''mods'' ls)"
  by (induction ls arbitrary: st) (simp_all add: has_key_simps wrote_mods_k_line)

lemma wrote_workshop_k_foldl:
  "wrote_workshop_k (foldl (rewrite_ini_keys_line m w mp) st ls)
     = (wrote_workshop_k st \<or> has_key ''workshopitems'' ls)"
  by (induction ls arbitrary: st) (simp_all add: has_key_simps wrote_workshop_k_line)

lemma wrote_map_k_foldl:
  "wrote_map_k (foldl (rewrite_ini_keys_line m w (Some mc)) st ls)
     = (wrote_map_k st \<or> has_key ''map'' ls)"
  by (induction ls arbitrary: st) (simp_all add: has_key_simps wrote_map_k_line)

lemma rewrite_ini_keys_refines:
  "rewrite_ini_keys content mods_csv workshop_csv map_csv =
     (let ls = splitlines (filter (\<lambda>c. c \<noteq> NUL) (read_text content))
      in concat (continuation_safe_rewrite (ini_keys_target mods_csv workshop_csv map_csv) ls)
         @ (if has_key ''mods'' ls then [] else ''Mods='' @ mods_csv @ [LF])
         @ (if has_key ''workshopitems'' ls then [] else ''WorkshopItems='' @ workshop_csv @ [LF])
         @ (case map_csv of
              None \<Rightarrow> []
            | Some mc \<Rightarrow> if has_key ''map'' ls then [] else ''Map='' @ mc @ [LF]))"
  unfolding rewrite_ini_keys_def Let_def
  by (cases map_csv)
     (simp_all add: out_lines_foldl wrote_mods_k_foldl wrote_workshop_k_foldl wrote_map_k_foldl
        skip_rewrite_spec)

subsection \<open>Claim about the rewrite\<close>

lemma continuation_safe_rewrite_keep:
  "\<forall>l \<in> set pre. target (rstrip_chars {CR, LF} l) = None \<Longrightarrow>
     continuation_safe_rewrite target (pre @ ls) = pre @ continuation_safe_rewrite target ls"
  by (induction pre) simp_all

lemma continuation_safe_rewrite_key:
  assumes pre: "\<forall>l \<in> set pre. target (rstrip_chars {CR, LF} l) = None"
    and key: "target (rstrip_chars {CR, LF} k) = Some new_line"
    and conts: "\<forall>l \<in> set conts. is_continuation l"
    and rest: "case rest of [] \<Rightarrow> True | r # _ \<Rightarrow> \<not> is_continuation r"
  shows "continuation_safe_rewrite target (pre @ k # conts @ rest)
           = pre @ new_line # continuation_safe_rewrite target rest"
proof -
  have "dropWhile is_continuation (conts @ rest) = dropWhile is_continuation rest"
    by (intro dropWhile_append2) (simp add: conts)
  also have "\<dots> = rest" using rest by (cases rest) simp_all
  finally have "continuation_safe_rewrite target (k # conts @ rest)
                  = new_line # continuation_safe_rewrite target rest"
    by (simp add: key)
  with continuation_safe_rewrite_keep[OF pre, of "k # conts @ rest"] show ?thesis by simp
qed

lemma concat_splitlines_from: "concat (splitlines_from cur s) = cur @ s"
  by (induction cur s rule: splitlines_from.induct) simp_all

lemma concat_splitlines: "concat (splitlines s) = s"
  by (simp add: splitlines_def concat_splitlines_from)

lemma universal_newlines_id: "CR \<notin> set s \<Longrightarrow> universal_newlines s = s"
  by (induction s rule: universal_newlines.induct) auto

lemma read_as_is:
  "CR \<notin> set content \<Longrightarrow> NUL \<notin> set content
     \<Longrightarrow> filter (\<lambda>c. c \<noteq> NUL) (read_text content) = content"
proof -
  assume cr: "CR \<notin> set content" and nul: "NUL \<notin> set content"
  from nul have "\<forall>x \<in> set content. x \<noteq> NUL" by (intro ballI notI) simp
  then have "filter (\<lambda>c. c \<noteq> NUL) content = content" by (simp only: filter_id_conv)
  with cr show ?thesis by (simp add: read_text_def universal_newlines_id)
qed


text \<open>
  Claim C9, as amended. Let \<open>t\<close> be the text of the document as the functions read it:
  line ends \<open>\r\n\<close> and \<open>\r\<close> arrive as \<open>\n\<close> and NUL characters are removed, so \<open>t\<close>
  is the document itself when it has neither. The lines of \<open>t\<close> make up \<open>t\<close>. If \<open>t\<close>
  is empty or ends with a line feed, the text written back by \<open>update_ini\<close> and by
  \<open>rewrite_ini_keys\<close> is the specification's line-by-line rewrite of these lines (the
  line of a target key replaced by exactly one new \<open>key=value\<close> line, the continuation
  lines that immediately follow it discarded, every other line, the one that ends the
  skip included, kept as it is and in its place), followed by one line for each target
  key that occurs nowhere in the document. Nothing is said about a document whose last
  line has no line end.
\<close>

theorem ini_rewrite_continuation_safe:
  assumes t: "t = filter (\<lambda>c. c \<noteq> NUL) (read_text content)"
    and ends: "t = [] \<or> last t = LF"
  shows "concat (splitlines t) = t \<and>
         (CR \<notin> set content \<and> NUL \<notin> set content \<longrightarrow> t = content) \<and>
         update_ini content mods_csv workshop_csv =
           concat (continuation_safe_rewrite (ini_target mods_csv workshop_csv) (splitlines t))
           @ (if has_key ''mods'' (splitlines t) then [] else ''Mods='' @ mods_csv @ [LF])
           @ (if has_key ''workshopitems'' (splitlines t) then []
              else ''WorkshopItems='' @ workshop_csv @ [LF]) \<and>
         rewrite_ini_keys content mods_csv workshop_csv map_csv =
           concat (continuation_safe_rewrite (ini_keys_target mods_csv workshop_csv map_csv)
                     (splitlines t))
           @ (if has_key ''mods'' (splitlines t) then [] else ''Mods='' @ mods_csv @ [LF])
           @ (if has_key ''workshopitems'' (splitlines t) then []
              else ''WorkshopItems='' @ workshop_csv @ [LF])
           @ (case map_csv of
                None \<Rightarrow> []
              | Some mc \<Rightarrow> if has_key ''map'' (splitlines t) then [] else ''Map='' @ mc @ [LF])"
proof (intro conjI)
  show "concat (splitlines t) = t" by (rule concat_splitlines)
  show "CR \<notin> set content \<and> NUL \<notin> set content \<longrightarrow> t = content"
    unfolding t by (intro impI, elim conjE, rule read_as_is)
  show "update_ini content mods_csv workshop_csv =
           concat (continuation_safe_rewrite (ini_target mods_csv workshop_csv) (splitlines t))
           @ (if has_key ''mods'' (splitlines t) then [] else ''Mods='' @ mods_csv @ [LF])
           @ (if has_key ''workshopitems'' (splitlines t) then []
              else ''WorkshopItems='' @ workshop_csv @ [LF])"
    unfolding t using update_ini_refines[of content mods_csv workshop_csv]
    by (simp only: Let_def)
  show "rewrite_ini_keys content mods_csv workshop_csv map_csv =
           concat (continuation_safe_rewrite (ini_keys_target mods_csv workshop_csv map_csv)
                     (splitlines t))
           @ (if has_key ''mods'' (splitlines t) then [] else ''Mods='' @ mods_csv @ [LF])
           @ (if has_key ''workshopitems'' (splitlines t) then []
              else ''WorkshopItems='' @ workshop_csv @ [LF])
           @ (case map_csv of
                None \<Rightarrow> []
              | Some mc \<Rightarrow> if has_key ''map'' (splitlines t) then [] else ''Map='' @ mc @ [LF])"
    unfolding t using rewrite_ini_keys_refines[of content mods_csv workshop_csv map_csv]
    by (simp only: Let_def)
qed


text \<open>
  Two documents run through the theorem. In the first the skip after \<open>Mods=\<close> passes an
  indented line that only looks like a key and ends at a comment line, and the skip after
  \<open>WorkshopItems=\<close> ends at an empty line; in the second the skip after \<open>Map=\<close> ends
  at a key line that is itself rewritten.
\<close>

theorem ini_rewrite_continuation_safe_witness:
  "update_ini ''# server\<newline>Mods=\<newline>a\<newline>  Key=still a continuation\<newline>b\<newline># c\<newline>kept\<newline>WorkshopItems=9\<newline>x\<newline>\<newline>y\<newline>PublicName=p\<newline>'' ''c;d'' ''1''
     = ''# server\<newline>Mods=c;d\<newline># c\<newline>kept\<newline>WorkshopItems=1\<newline>\<newline>y\<newline>PublicName=p\<newline>'' \<and>
   rewrite_ini_keys ''Map=old\<newline>more\<newline>mods = x\<newline>WorkshopItems=9\<newline>tail\<newline>Other=1\<newline>'' ''c;d'' ''1'' (Some ''M1;M2'')
     = ''Map=M1;M2\<newline>Mods=c;d\<newline>WorkshopItems=1\<newline>Other=1\<newline>''"
proof -
  let ?d1 = "''# server\<newline>Mods=\<newline>a\<newline>  Key=still a continuation\<newline>b\<newline># c\<newline>kept\<newline>WorkshopItems=9\<newline>x\<newline>\<newline>y\<newline>PublicName=p\<newline>''"
  let ?d2 = "''Map=old\<newline>more\<newline>mods = x\<newline>WorkshopItems=9\<newline>tail\<newline>Other=1\<newline>''"
  have t1: "?d1 = filter (\<lambda>c. c \<noteq> NUL) (read_text ?d1)" by code_simp
  have e1: "?d1 = [] \<or> last ?d1 = LF" by code_simp
  have t2: "?d2 = filter (\<lambda>c. c \<noteq> NUL) (read_text ?d2)" by code_simp
  have e2: "?d2 = [] \<or> last ?d2 = LF" by code_simp
  note u1 = ini_rewrite_continuation_safe[OF t1 e1, of "''c;d''" "''1''" None,
              THEN conjunct2, THEN conjunct2, THEN conjunct1]
  note u2 = ini_rewrite_continuation_safe[OF t2 e2, of "''c;d''" "''1''" "Some ''M1;M2''",
              THEN conjunct2, THEN conjunct2, THEN conjunct2]
  have 1: "update_ini ?d1 ''c;d'' ''1''
     = ''# server\<newline>Mods=c;d\<newline># c\<newline>kept\<newline>WorkshopItems=1\<newline>\<newline>y\<newline>PublicName=p\<newline>''"
    unfolding u1 by code_simp
  have 2: "rewrite_ini_keys ?d2 ''c;d'' ''1'' (Some ''M1;M2'')
     = ''Map=M1;M2\<newline>Mods=c;d\<newline>WorkshopItems=1\<newline>Other=1\<newline>''"
    unfolding u2 by code_simp
  from 1 2 show ?thesis by (rule conjI)
qed

text \<open>
  Claim C9 as first worded had every other line of the document preserved byte for byte.
  A line that ends in \<open>\r\n\<close> comes back ending in \<open>\n\<close>, and a last line without a
  line end is continued by the first appended key.
\<close>

theorem ini_rewrite_continuation_safe_counterexample:
  "update_ini (''X=1'' @ [CR, LF]) ''c;d'' ''1''
     = ''X=1'' @ [LF] @ ''Mods=c;d'' @ [LF] @ ''WorkshopItems=1'' @ [LF] \<and>
   splitlines (''X=1'' @ [CR, LF]) = [''X=1'' @ [CR, LF]] \<and>
   take 5 (update_ini (''X=1'' @ [CR, LF]) ''c;d'' ''1'') \<noteq> ''X=1'' @ [CR, LF] \<and>
   update_ini ''PublicName=x'' ''c;d'' ''1''
     = ''PublicName=xMods=c;d'' @ [LF] @ ''WorkshopItems=1'' @ [LF]"
  by code_simp


section \<open>Reading mods.txt (process\_mods.py, parse\_mods\_blocks and parse\_mods\_txt)\<close>

record ModBlock =
  workshop_id :: string
  mod_ids :: "string list"

text \<open>
  \<open>for raw_line in fh\<close>: the file is open in text mode, so \<open>\r\n\<close> and \<open>\r\<close> arrive as
  \<open>\n\<close>, and the lines end at \<open>\n\<close> only.
\<close>

fun lines_from :: "string \<Rightarrow> string \<Rightarrow> string list" where
  "lines_from cur [] = (if cur = [] then [] else [cur])"
| "lines_from cur (c # cs) =
     (if c = LF then (cur @ [c]) # lines_from [] cs else lines_from (cur @ [c]) cs)"

definition file_lines :: "string \<Rightarrow> string list" where
  "file_lines content = lines_from [] (universal_newlines content)"

text \<open>
  \<open>re.match(r"(?i)^workshop\s+id\s*:\s*(\S+)", line)\<close>, giving group 1. Every starred or
  plussed class is followed by a character outside it, so the greedy match is the only
  one.
\<close>

definition workshop_id_match :: "string \<Rightarrow> string option" where
  "workshop_id_match line =
     (case ci_prefix ''workshop'' line of
        None \<Rightarrow> None
      | Some r1 \<Rightarrow>
          (case r1 of
             [] \<Rightarrow> None
           | c # _ \<Rightarrow>
               if \<not> isspace c then None
               else (case ci_prefix ''id'' (dropWhile isspace r1) of
                       None \<Rightarrow> None
                     | Some r2 \<Rightarrow>
                         (case dropWhile isspace r2 of
                            [] \<Rightarrow> None
                          | d # r3 \<Rightarrow>
                              if d \<noteq> CHR '':'' then None
                              else (let g = takeWhile (\<lambda>x. \<not> isspace x) (dropWhile isspace r3)
                                    in if g = [] then None else Some g)))))"

text \<open>
  \<open>re.match(r"(?i)^mod\s+id\s*:\s*(.+)", line)\<close> followed by \<open>mid = m.group(1).strip()\<close>
  and the test \<open>if mid\<close>: the result is the stripped, non-empty identifier, and \<open>None\<close>
  both when the pattern does not match and when the identifier is empty (the source does
  nothing in either case).
\<close>

definition mod_id_match :: "string \<Rightarrow> string option" where
  "mod_id_match line =
     (case ci_prefix ''mod'' line of
        None \<Rightarrow> None
      | Some r1 \<Rightarrow>
          (case r1 of
             [] \<Rightarrow> None
           | c # _ \<Rightarrow>
               if \<not> isspace c then None
               else (case ci_prefix ''id'' (dropWhile isspace r1) of
                       None \<Rightarrow> None
                     | Some r2 \<Rightarrow>
                         (case dropWhile isspace r2 of
                            [] \<Rightarrow> None
                          | d # r3 \<Rightarrow>
                              if d \<noteq> CHR '':'' then None
                              else (let mid = strip (takeWhile (\<lambda>x. x \<noteq> LF) r3)
                                    in if mid = [] then None else Some mid)))))"

text \<open>
  \<open>current.mod_ids.append(mid)\<close>: \<open>current\<close> is the block appended last, so the append
  changes the last element of \<open>blocks\<close>.
\<close>

fun append_to_current :: "ModBlock list \<Rightarrow> string \<Rightarrow> ModBlock list" where
  "append_to_current [] mid = []"
| "append_to_current [b] mid =
     [if mid \<in> set (mod_ids b) then b else b\<lparr>mod_ids := mod_ids b @ [mid]\<rparr>]"
| "append_to_current (b # b' # bs) mid = b # append_to_current (b' # bs) mid"

text \<open>
  One pass of the loop body. The state is \<open>blocks\<close> and whether \<open>current\<close> is set.
\<close>

definition parse_mods_line :: "ModBlock list \<times> bool \<Rightarrow> string \<Rightarrow> ModBlock list \<times> bool" where
  "parse_mods_line st raw_line =
     (let blocks = fst st; current = snd st; line = strip raw_line
      in if line = [] \<or> startswith_hash line then st
         else if line = ''---'' then (blocks, False)
         else (case workshop_id_match line of
                 Some wid \<Rightarrow> (blocks @ [\<lparr>workshop_id = wid, mod_ids = []\<rparr>], True)
               | None \<Rightarrow>
                   if \<not> current then st
                   else (case mod_id_match line of
                           Some mid \<Rightarrow> (append_to_current blocks mid, True)
                         | None \<Rightarrow> st)))"

definition parse_mods_blocks :: "string \<Rightarrow> ModBlock list" where
  "parse_mods_blocks content = fst (foldl parse_mods_line ([], False) (file_lines content))"

text \<open>\<open>parse_mods_txt\<close>: the two result lists with their two sets of seen identifiers.\<close>

definition add_mod_id ::
  "string list \<times> string set \<Rightarrow> string \<Rightarrow> string list \<times> string set" where
  "add_mod_id st mid =
     (if mid \<noteq> [] \<and> mid \<notin> snd st then (fst st @ [mid], insert mid (snd st)) else st)"

definition add_block ::
  "(string list \<times> string set) \<times> (string list \<times> string set) \<Rightarrow> ModBlock
     \<Rightarrow> (string list \<times> string set) \<times> (string list \<times> string set)" where
  "add_block st block =
     (let ws = fst st; ms = snd st; wid = workshop_id block
      in ((if wid \<notin> snd ws then (fst ws @ [wid], insert wid (snd ws)) else ws),
          foldl add_mod_id ms (mod_ids block)))"

definition parse_mods_txt :: "string \<Rightarrow> string list \<times> string list" where
  "parse_mods_txt content =
     (let st = foldl add_block (([], {}), ([], {})) (parse_mods_blocks content)
      in (fst (fst st), fst (snd st)))"

subsection \<open>The lists returned by parse\_mods\_txt\<close>


















text \<open>A file with repeated identifiers, a comment, a stray line and a CRLF line end.\<close>

lemma parse_mods_txt_run:
  "parse_mods_txt (''Workshop ID: 1'' @ [LF] @ ''Mod ID: A'' @ [LF] @ ''mod  id :  B b '' @ [LF] @ ''Mod ID: A'' @ [LF] @ ''---'' @ [LF] @ ''Mod ID: lost'' @ [LF] @ ''# c'' @ [LF] @ ''WORKSHOP id:2 x'' @ [CR, LF] @ [LF] @ ''Mod ID: A'' @ [LF] @ ''Workshop ID: 1'' @ [LF] @ ''Mod ID: C'')
   = ([''1'', ''2''], [''A'', ''B b'', ''C''])"
  by code_simp


section \<open>Rewriting mods.txt (process\_mods.py, rewrite\_mods\_txt)\<close>

text \<open>
  A dictionary with list values is an association list with distinct keys in insertion
  order. \<open>dict_get d k\<close> is \<open>d.get(k, [])\<close>.
\<close>

definition dict_get :: "('k \<times> 'v list) list \<Rightarrow> 'k \<Rightarrow> 'v list" where
  "dict_get d k = (case map_of d k of None \<Rightarrow> [] | Some v \<Rightarrow> v)"

text \<open>The keys of \<open>mod_to_workshop\<close>: every mod of every cached workshop item.\<close>

definition mod_to_workshop_keys :: "(string \<times> string list) list \<Rightarrow> string set" where
  "mod_to_workshop_keys workshop_to_mods = set (concat (map snd workshop_to_mods))"

text \<open>\<open>sorted_pos = {mid: i for i, mid in enumerate(mod_ids_sorted)}\<close>, read at its keys only.\<close>

definition sorted_pos :: "string list \<Rightarrow> string \<Rightarrow> nat" where
  "sorted_pos mod_ids_sorted =
     fold (\<lambda>(i, mid) d. d(mid := i)) (enumerate 0 mod_ids_sorted) (\<lambda>_. 0)"

text \<open>\<open>_group_for\<close>; \<open>sorted\<close> is stable, as \<open>sort_key\<close> is.\<close>

definition group_for :: "(string \<times> string list) list \<Rightarrow> string list \<Rightarrow> string \<Rightarrow> string list" where
  "group_for workshop_to_mods mod_ids_sorted wid =
     (let cache_mods = dict_get workshop_to_mods wid
      in if cache_mods = [] then []
         else sort_key (sorted_pos mod_ids_sorted)
                (filter (\<lambda>m. m \<in> set mod_ids_sorted) cache_mods))"

definition new_orphans :: "(string \<times> string list) list \<Rightarrow> string list \<Rightarrow> string list" where
  "new_orphans workshop_to_mods mod_ids_sorted =
     filter (\<lambda>m. m \<notin> mod_to_workshop_keys workshop_to_mods) mod_ids_sorted"

text \<open>
  \<open>{b.workshop_id: b.mod_ids for b in blocks}\<close> read with \<open>.get(wid, [])\<close>: the last block
  of a workshop identifier wins.
\<close>

definition existing :: "ModBlock list \<Rightarrow> string \<Rightarrow> string list" where
  "existing blocks wid = dict_get (rev (map (\<lambda>b. (workshop_id b, mod_ids b)) blocks)) wid"

text \<open>
  The validation loop. A warning is represented by the workshop identifier it is about.
\<close>

definition validation_warnings ::
  "ModBlock list \<Rightarrow> string list \<Rightarrow> string list \<Rightarrow> (string \<times> string list) list \<Rightarrow> string list" where
  "validation_warnings blocks workshop_ids mod_ids_sorted workshop_to_mods =
     filter (\<lambda>wid. group_for workshop_to_mods mod_ids_sorted wid = []
                   \<and> dict_get workshop_to_mods wid = []
                   \<and> existing blocks wid = []) workshop_ids"

definition existing_orphans :: "ModBlock list \<Rightarrow> string list \<Rightarrow> string list" where
  "existing_orphans blocks workshop_ids =
     concat (map mod_ids (filter (\<lambda>b. workshop_id b \<notin> set workshop_ids) blocks))"

text \<open>The value of \<open>changed\<close>.\<close>

definition changed ::
  "ModBlock list \<Rightarrow> string list \<Rightarrow> string list \<Rightarrow> (string \<times> string list) list \<Rightarrow> bool" where
  "changed blocks workshop_ids mod_ids_sorted workshop_to_mods =
     (map workshop_id blocks \<noteq> workshop_ids
      \<or> list_ex (\<lambda>wid. existing blocks wid \<noteq> group_for workshop_to_mods mod_ids_sorted wid)
           workshop_ids
      \<or> existing_orphans blocks workshop_ids \<noteq> new_orphans workshop_to_mods mod_ids_sorted)"

text \<open>The lines written, \<open>"\n".join\<close>, and the text of the new file.\<close>

definition group_lines :: "(string \<times> string list) list \<Rightarrow> string list \<Rightarrow> string \<Rightarrow> string list" where
  "group_lines workshop_to_mods mod_ids_sorted wid =
     [''Workshop ID: '' @ wid]
     @ map (\<lambda>mid. ''Mod ID: '' @ mid) (group_for workshop_to_mods mod_ids_sorted wid)
     @ [''---'', []]"

definition orphan_lines :: "string list \<Rightarrow> string list" where
  "orphan_lines orphans =
     (if orphans = [] then []
      else [''# Mod IDs not yet attributed to any downloaded workshop item'']
           @ map (\<lambda>mid. ''Mod ID: '' @ mid) orphans @ [''---'', []])"

fun join_lines :: "string list \<Rightarrow> string" where
  "join_lines [] = []"
| "join_lines [l] = l"
| "join_lines (l # m # ls) = l @ [LF] @ join_lines (m # ls)"

definition out_text :: "string list \<Rightarrow> string list \<Rightarrow> (string \<times> string list) list \<Rightarrow> string" where
  "out_text workshop_ids mod_ids_sorted workshop_to_mods =
     rstrip_chars {LF}
       (join_lines (concat (map (group_lines workshop_to_mods mod_ids_sorted) workshop_ids)
                    @ orphan_lines (new_orphans workshop_to_mods mod_ids_sorted)))
     @ [LF]"

text \<open>
  \<open>rewrite_mods_txt\<close>. The first argument is the content of the file; the result is
  \<open>(changed, validation_warnings)\<close> and the content of the file afterwards.
\<close>

definition rewrite_mods_txt ::
  "string \<Rightarrow> string list \<Rightarrow> string list \<Rightarrow> (string \<times> string list) list
     \<Rightarrow> (bool \<times> string list) \<times> string" where
  "rewrite_mods_txt content workshop_ids mod_ids_sorted workshop_to_mods =
     (let blocks = parse_mods_blocks content;
          warnings = validation_warnings blocks workshop_ids mod_ids_sorted workshop_to_mods
      in if \<not> changed blocks workshop_ids mod_ids_sorted workshop_to_mods
         then ((False, warnings), content)
         else ((True, warnings), out_text workshop_ids mod_ids_sorted workshop_to_mods))"

text \<open>
  A registry whose workshop item is not in the cache yet, and the file written for it.
\<close>

definition mods_txt_1 :: string where
  "mods_txt_1 = ''Workshop ID: 1'' @ [LF] @ ''Mod ID: A'' @ [LF] @ ''---'' @ [LF]"

definition mods_txt_2 :: string where
  "mods_txt_2 = ''Workshop ID: 1'' @ [LF] @ ''---'' @ [LF] @ [LF]
     @ ''# Mod IDs not yet attributed to any downloaded workshop item'' @ [LF]
     @ ''Mod ID: A'' @ [LF] @ ''---'' @ [LF]"

text \<open>
  Claim C2 fails on this input. With the workshop item absent from the cache the group of
  the block is empty and its mod is an orphan, written below the comment header after the
  block has been closed. The parser attaches no mod to a closed block, so
  \<open>existing_orphans\<close> is empty at the second call while \<open>new_orphans\<close> is not: the second
  call with the same arguments returns \<open>changed = True\<close> again and writes the file again.
  The mod is also lost to \<open>parse_mods_txt\<close>, which reads no mod from the rewritten file.
\<close>

theorem rewrite_mods_txt_twice:
  "parse_mods_txt mods_txt_1 = ([''1''], [''A'']) \<and>
   rewrite_mods_txt mods_txt_1 [''1''] [''A''] [] = ((True, []), mods_txt_2) \<and>
   rewrite_mods_txt mods_txt_2 [''1''] [''A''] [] = ((True, [''1'']), mods_txt_2) \<and>
   parse_mods_txt mods_txt_2 = ([''1''], [])"
  by code_simp


section \<open>Map conflict checks (process\_mods.py)\<close>

text \<open>
  What the script reads of a file \<open>mod.info\<close>: its path below the item directory as the
  list of its components (which is how \<open>sorted\<close> compares paths), its text, and the names
  of the directories directly under \<open>media/maps\<close> beside it, in the order of \<open>iterdir\<close>
  (none when there is no such directory).

  What it reads of a workshop item directory: its name, every file \<open>mod.info\<close> below it
  and the name of every file \<open>*.lotheader\<close> below it, each in the order in which \<open>rglob\<close>
  yields them. The workshop root maps a workshop identifier to the directory
  \<open>workshop_root / wid\<close>, or to \<open>None\<close> when that is not a directory.
\<close>

record mod_info_file =
  info_path :: "string list"
  info_text :: string
  map_dirs :: "string list"

record item_dir =
  dir_name :: string
  mod_infos :: "mod_info_file list"
  lotheader_files :: "string list"

text \<open>\<open>str.splitlines()\<close>: the lines of \<open>splitlines\<close> without their terminators.\<close>

definition drop_line_end :: "string \<Rightarrow> string" where
  "drop_line_end l =
     (if l = [] then []
      else if 2 \<le> length l \<and> last (butlast l) = CR \<and> last l = LF then butlast (butlast l)
      else if is_linebreak (last l) then butlast l
      else l)"

definition text_lines :: "string \<Rightarrow> string list" where
  "text_lines s = map drop_line_end (splitlines s)"

text \<open>
  \<open>re.match(r"(?i)^\s*name\s*=\s*(.+)", line)\<close> followed by \<open>m.group(1).strip()\<close>. When
  only white space follows the equals sign, the group is one white space character,
  which is stripped to the empty string.
\<close>

definition name_match :: "string \<Rightarrow> string option" where
  "name_match line =
     (case ci_prefix ''name'' (dropWhile isspace line) of
        None \<Rightarrow> None
      | Some r1 \<Rightarrow>
          (case dropWhile isspace r1 of
             [] \<Rightarrow> None
           | e # r2 \<Rightarrow>
               if e \<noteq> CHR ''='' then None
               else (let r3 = dropWhile isspace r2
                     in if r3 \<noteq> [] then Some (strip (takeWhile (\<lambda>c. c \<noteq> LF) r3))
                        else if list_ex (\<lambda>c. c \<noteq> LF) r2 then Some []
                        else None)))"

definition mod_label_for_dir :: "item_dir \<Rightarrow> string" where
  "mod_label_for_dir item =
     (case mod_infos item of
        [] \<Rightarrow> dir_name item
      | modinfo # _ \<Rightarrow>
          (case List.map_filter name_match (text_lines (read_text (info_text modinfo))) of
             [] \<Rightarrow> dir_name item
           | n # _ \<Rightarrow> n @ '' ['' @ dir_name item @ '']''))"

text \<open>\<open>\d\<close> and \<open>int\<close> of a string of digits.\<close>

definition is_digit :: "char \<Rightarrow> bool" where
  "is_digit c \<longleftrightarrow> (let n = (of_char c :: nat) in 48 \<le> n \<and> n \<le> 57)"

definition int_of_digits :: "string \<Rightarrow> nat" where
  "int_of_digits ds = foldl (\<lambda>n c. 10 * n + (of_char c - 48)) 0 ds"

text \<open>
  \<open>re.match(r"(?i)^tiledef\s*=\s*\S+\s+(\d+)", line.strip())\<close> and \<open>int(m.group(1))\<close>;
  the argument is the stripped line.
\<close>

definition tiledef_match :: "string \<Rightarrow> nat option" where
  "tiledef_match line =
     (case ci_prefix ''tiledef'' line of
        None \<Rightarrow> None
      | Some r1 \<Rightarrow>
          (case dropWhile isspace r1 of
             [] \<Rightarrow> None
           | e # r2 \<Rightarrow>
               if e \<noteq> CHR ''='' then None
               else (let r3 = dropWhile isspace r2;
                         pack = takeWhile (\<lambda>c. \<not> isspace c) r3;
                         r4 = dropWhile (\<lambda>c. \<not> isspace c) r3;
                         num = takeWhile is_digit (dropWhile isspace r4)
                     in if pack = [] \<or> r4 = [] \<or> num = [] then None
                        else Some (int_of_digits num))))"

text \<open>
  \<open>re.match(r"^(\d+)_(\d+)\.lotheader$", lh.name)\<close> and the pair of the two numbers; \<open>$\<close>
  also matches before a line feed that ends the string.
\<close>

definition lotheader_match :: "string \<Rightarrow> (nat \<times> nat) option" where
  "lotheader_match nm =
     (let d1 = takeWhile is_digit nm; r1 = dropWhile is_digit nm
      in case r1 of
           [] \<Rightarrow> None
         | u # r2 \<Rightarrow>
             (let d2 = takeWhile is_digit r2; r3 = dropWhile is_digit r2
              in if d1 \<noteq> [] \<and> u = CHR ''_'' \<and> d2 \<noteq> []
                    \<and> (r3 = ''.lotheader'' \<or> r3 = ''.lotheader'' @ [LF])
                 then Some (int_of_digits d1, int_of_digits d2) else None))"

text \<open>The claims of one item, in the order in which the loops meet them.\<close>

definition tiledef_numbers :: "item_dir \<Rightarrow> nat list" where
  "tiledef_numbers item =
     List.map_filter tiledef_match
       (map strip (concat (map (\<lambda>modinfo. text_lines (read_text (info_text modinfo)))
                             (mod_infos item))))"

definition lotheader_coords :: "item_dir \<Rightarrow> (nat \<times> nat) list" where
  "lotheader_coords item = List.map_filter lotheader_match (lotheader_files item)"

text \<open>
  \<open>number_to_mods[num].append(label)\<close> on a \<open>defaultdict(list)\<close>, the dictionary being an
  association list in insertion order.
\<close>

fun defaultdict_append :: "('k \<times> 'v list) list \<Rightarrow> 'k \<Rightarrow> 'v \<Rightarrow> ('k \<times> 'v list) list" where
  "defaultdict_append [] k v = [(k, [v])]"
| "defaultdict_append ((k', vs) # d) k v =
     (if k' = k then (k', vs @ [v]) # d else (k', vs) # defaultdict_append d k v)"

text \<open>The body of the inner loop, on the dictionary and the set \<open>seen\<close> of the item.\<close>

definition claim_once ::
  "'v \<Rightarrow> ('k \<times> 'v list) list \<times> 'k set \<Rightarrow> 'k \<Rightarrow> ('k \<times> 'v list) list \<times> 'k set" where
  "claim_once label st k =
     (if k \<in> snd st then st else (defaultdict_append (fst st) k label, insert k (snd st)))"

definition item_claims :: "'v \<Rightarrow> 'k list \<Rightarrow> ('k \<times> 'v list) list \<Rightarrow> ('k \<times> 'v list) list" where
  "item_claims label ks d = fst (foldl (claim_once label) (d, {}) ks)"

text \<open>The final comprehension \<open>{n: mods for n, mods in ... if len(mods) > 1}\<close>.\<close>

definition more_than_one :: "('k \<times> 'v list) list \<Rightarrow> ('k \<times> 'v list) list" where
  "more_than_one d = filter (\<lambda>kv. 1 < length (snd kv)) d"

definition check_tiledef_conflicts ::
  "(string \<Rightarrow> item_dir option) \<Rightarrow> string list \<Rightarrow> (nat \<times> string list) list" where
  "check_tiledef_conflicts workshop_root workshop_ids =
     more_than_one
       (foldl (\<lambda>number_to_mods wid.
                 case workshop_root wid of
                   None \<Rightarrow> number_to_mods
                 | Some item \<Rightarrow>
                     item_claims (mod_label_for_dir item) (tiledef_numbers item) number_to_mods)
          [] workshop_ids)"

definition check_map_coord_conflicts ::
  "(string \<Rightarrow> item_dir option) \<Rightarrow> string list \<Rightarrow> ((nat \<times> nat) \<times> string list) list" where
  "check_map_coord_conflicts workshop_root workshop_ids =
     more_than_one
       (foldl (\<lambda>coord_to_mods wid.
                 case workshop_root wid of
                   None \<Rightarrow> coord_to_mods
                 | Some item \<Rightarrow>
                     item_claims (mod_label_for_dir item) (lotheader_coords item) coord_to_mods)
          [] workshop_ids)"

text \<open>
  The claim's own notions: the listed packages that claim a value, and the label of a
  package.
\<close>

definition claimants ::
  "(string \<Rightarrow> item_dir option) \<Rightarrow> (item_dir \<Rightarrow> 'k list) \<Rightarrow> string list \<Rightarrow> 'k \<Rightarrow> string list" where
  "claimants workshop_root claims_of workshop_ids k =
     filter (\<lambda>wid. case workshop_root wid of
                     None \<Rightarrow> False
                   | Some item \<Rightarrow> k \<in> set (claims_of item)) workshop_ids"

definition label_of :: "(string \<Rightarrow> item_dir option) \<Rightarrow> string \<Rightarrow> string" where
  "label_of workshop_root wid =
     (case workshop_root wid of None \<Rightarrow> [] | Some item \<Rightarrow> mod_label_for_dir item)"

subsection \<open>What the checks report\<close>

lemma dict_get_Nil: "dict_get [] k = []"
  by (simp add: dict_get_def)

lemma dict_get_Cons: "dict_get ((k', vs) # d) k = (if k' = k then vs else dict_get d k)"
  by (simp add: dict_get_def)

lemma dict_get_defaultdict_append:
  "dict_get (defaultdict_append d k v) k'
   = (if k' = k then dict_get d k @ [v] else dict_get d k')"
  by (induction d k v rule: defaultdict_append.induct) (auto simp: dict_get_Nil dict_get_Cons)

lemma keys_defaultdict_append:
  "fst ` set (defaultdict_append d k v) = insert k (fst ` set d)"
  by (induction d k v rule: defaultdict_append.induct) auto

lemma distinct_defaultdict_append:
  "distinct (map fst d) \<Longrightarrow> distinct (map fst (defaultdict_append d k v))"
proof (induction d k v rule: defaultdict_append.induct)
  case (1 k v)
  show ?case by simp
next
  case (2 k' vs d k v)
  have "fst ` set (defaultdict_append d k v) = insert k (fst ` set d)"
    by (rule keys_defaultdict_append)
  with 2 show ?case by auto
qed

lemma claim_once_foldl:
  "dict_get (fst (foldl (claim_once label) (d, seen) ks)) k
   = dict_get d k @ (if k \<in> set ks \<and> k \<notin> seen then [label] else [])"
proof (induction ks arbitrary: d seen)
  case Nil
  show ?case by simp
next
  case (Cons a ks)
  show ?case
  proof (cases "a \<in> seen")
    case True
    then have "foldl (claim_once label) (d, seen) (a # ks) = foldl (claim_once label) (d, seen) ks"
      by (simp add: claim_once_def)
    then show ?thesis using True Cons.IH[of d seen] by auto
  next
    case False
    then have "foldl (claim_once label) (d, seen) (a # ks)
               = foldl (claim_once label) (defaultdict_append d a label, insert a seen) ks"
      by (simp add: claim_once_def)
    then show ?thesis
      using False Cons.IH[of "defaultdict_append d a label" "insert a seen"]
      by (auto simp: dict_get_defaultdict_append)
  qed
qed

lemma claim_once_foldl_distinct:
  "distinct (map fst d) \<Longrightarrow> distinct (map fst (fst (foldl (claim_once label) (d, seen) ks)))"
proof (induction ks arbitrary: d seen)
  case Nil
  then show ?case by simp
next
  case (Cons a ks)
  show ?case
  proof (cases "a \<in> seen")
    case True
    then have "foldl (claim_once label) (d, seen) (a # ks) = foldl (claim_once label) (d, seen) ks"
      by (simp add: claim_once_def)
    then show ?thesis using Cons.IH[OF Cons.prems] by simp
  next
    case False
    then have "foldl (claim_once label) (d, seen) (a # ks)
               = foldl (claim_once label) (defaultdict_append d a label, insert a seen) ks"
      by (simp add: claim_once_def)
    then show ?thesis
      using Cons.IH[OF distinct_defaultdict_append[OF Cons.prems]] by simp
  qed
qed

lemma item_claims_get:
  "dict_get (item_claims label ks d) k = dict_get d k @ (if k \<in> set ks then [label] else [])"
  unfolding item_claims_def by (simp add: claim_once_foldl)

lemma item_claims_distinct:
  "distinct (map fst d) \<Longrightarrow> distinct (map fst (item_claims label ks d))"
  unfolding item_claims_def by (rule claim_once_foldl_distinct)

text \<open>The body of the outer loop of either check, for the proofs.\<close>

definition visit ::
  "(string \<Rightarrow> item_dir option) \<Rightarrow> (item_dir \<Rightarrow> 'k list) \<Rightarrow> ('k \<times> string list) list \<Rightarrow> string
     \<Rightarrow> ('k \<times> string list) list" where
  "visit workshop_root claims_of d wid =
     (case workshop_root wid of
        None \<Rightarrow> d
      | Some item \<Rightarrow> item_claims (mod_label_for_dir item) (claims_of item) d)"

lemma visit_get:
  "dict_get (visit workshop_root claims_of d wid) k
   = dict_get d k @ map (label_of workshop_root) (claimants workshop_root claims_of [wid] k)"
  by (cases "workshop_root wid") (simp_all add: visit_def claimants_def label_of_def item_claims_get)

lemma visit_distinct:
  "distinct (map fst d) \<Longrightarrow> distinct (map fst (visit workshop_root claims_of d wid))"
  by (cases "workshop_root wid") (simp_all add: visit_def item_claims_distinct)

lemma claimants_Cons:
  "claimants workshop_root claims_of (wid # wids) k
   = claimants workshop_root claims_of [wid] k @ claimants workshop_root claims_of wids k"
  by (simp add: claimants_def)

lemma visit_foldl_get:
  "dict_get (foldl (visit workshop_root claims_of) d wids) k
   = dict_get d k @ map (label_of workshop_root) (claimants workshop_root claims_of wids k)"
proof (induction wids arbitrary: d)
  case Nil
  show ?case by (simp add: claimants_def)
next
  case (Cons wid wids)
  have "dict_get (foldl (visit workshop_root claims_of) d (wid # wids)) k
        = dict_get (visit workshop_root claims_of d wid) k
          @ map (label_of workshop_root) (claimants workshop_root claims_of wids k)"
    by (simp only: foldl_Cons Cons.IH)
  also have "\<dots> = dict_get d k
          @ map (label_of workshop_root) (claimants workshop_root claims_of (wid # wids) k)"
    by (simp only: visit_get claimants_Cons[of _ _ wid wids] map_append append_assoc)
  finally show ?case .
qed

lemma visit_foldl_distinct:
  "distinct (map fst d) \<Longrightarrow> distinct (map fst (foldl (visit workshop_root claims_of) d wids))"
  by (induction wids arbitrary: d) (simp_all add: visit_distinct)

lemma map_of_filter_absent:
  "k \<notin> fst ` set d \<Longrightarrow> map_of (filter P d) k = None"
  by (induction d) auto

lemma map_of_more_than_one:
  "distinct (map fst d) \<Longrightarrow>
   map_of (more_than_one d) k
   = (if 1 < length (dict_get d k) then Some (dict_get d k) else None)"
proof (induction d)
  case Nil
  show ?case by (simp add: more_than_one_def dict_get_Nil)
next
  case (Cons kv d)
  obtain k' vs where kv: "kv = (k', vs)" by (cases kv)
  from Cons.prems kv have nk: "k' \<notin> fst ` set d" and dd: "distinct (map fst d)" by auto
  show ?case
  proof (cases "k = k'")
    case True
    have "map_of (filter (\<lambda>kv. 1 < length (snd kv)) d) k = None"
      using nk True by (intro map_of_filter_absent) simp
    then show ?thesis using True kv by (simp add: more_than_one_def dict_get_Cons)
  next
    case False
    have "map_of (more_than_one (kv # d)) k = map_of (more_than_one d) k"
      using False kv by (simp add: more_than_one_def)
    moreover have "dict_get (kv # d) k = dict_get d k"
      using False kv by (simp add: dict_get_Cons)
    ultimately show ?thesis using Cons.IH[OF dd] by simp
  qed
qed

lemma conflicts_exact:
  "map_of (more_than_one (foldl (visit workshop_root claims_of) [] workshop_ids)) k
   = (if 1 < length (claimants workshop_root claims_of workshop_ids k)
      then Some (map (label_of workshop_root) (claimants workshop_root claims_of workshop_ids k))
      else None)"
proof -
  have d: "distinct (map fst (foldl (visit workshop_root claims_of) [] workshop_ids))"
    by (rule visit_foldl_distinct) simp
  have g: "dict_get (foldl (visit workshop_root claims_of) [] workshop_ids) k
           = map (label_of workshop_root) (claimants workshop_root claims_of workshop_ids k)"
    by (simp add: visit_foldl_get dict_get_Nil)
  show ?thesis
    by (simp only: map_of_more_than_one[OF d] g length_map)
qed

lemma check_tiledef_conflicts_visit:
  "check_tiledef_conflicts workshop_root workshop_ids
   = more_than_one (foldl (visit workshop_root tiledef_numbers) [] workshop_ids)"
  unfolding check_tiledef_conflicts_def visit_def ..

lemma check_map_coord_conflicts_visit:
  "check_map_coord_conflicts workshop_root workshop_ids
   = more_than_one (foldl (visit workshop_root lotheader_coords) [] workshop_ids)"
  unfolding check_map_coord_conflicts_def visit_def ..

lemma distinct_claimants:
  "distinct workshop_ids \<Longrightarrow> distinct (claimants workshop_root claims_of workshop_ids k)"
  by (simp add: claimants_def)

lemma claimants_card:
  "distinct workshop_ids \<Longrightarrow>
   length (claimants workshop_root claims_of workshop_ids k)
   = card (set (claimants workshop_root claims_of workshop_ids k))"
  by (simp add: distinct_claimants distinct_card)

text \<open>
  Claim C8, as amended. For a list of workshop identifiers without repetition, each listed
  identifier whose directory exists being one package: a grid cell is a key of the
  mapping returned by \<open>check_map_coord_conflicts\<close> exactly when two or more of the
  packages claim it, and the list under the key holds the label of every claiming
  package once, in the order of processing, however many files of a package repeat
  the claim. The same holds of \<open>check_tiledef_conflicts\<close> and the tiledef numbers.
\<close>

theorem conflict_checks_exact:
  assumes "distinct workshop_ids"
  shows "map_of (check_map_coord_conflicts workshop_root workshop_ids) c
         = (if 2 \<le> card (set (claimants workshop_root lotheader_coords workshop_ids c))
            then Some (map (label_of workshop_root)
                         (claimants workshop_root lotheader_coords workshop_ids c))
            else None) \<and>
         distinct (claimants workshop_root lotheader_coords workshop_ids c) \<and>
         map_of (check_tiledef_conflicts workshop_root workshop_ids) n
         = (if 2 \<le> card (set (claimants workshop_root tiledef_numbers workshop_ids n))
            then Some (map (label_of workshop_root)
                         (claimants workshop_root tiledef_numbers workshop_ids n))
            else None) \<and>
         distinct (claimants workshop_root tiledef_numbers workshop_ids n)"
proof -
  have t: "(1 < m) = (2 \<le> m)" for m :: nat by arith
  show ?thesis
    unfolding check_map_coord_conflicts_visit check_tiledef_conflicts_visit conflicts_exact
    using assms
    by (simp only: claimants_card[OF assms] distinct_claimants[OF assms] t)
qed

subsection \<open>Concrete runs of the conflict checks\<close>

text \<open>
  Two workshop items. The first repeats a tiledef number in two files and a grid cell
  in two file names; both items claim the cell (5,7) and the tiledef number 12.
\<close>

definition item_one :: item_dir where
  "item_one = \<lparr>dir_name = ''1'',
     mod_infos =
       [\<lparr>info_path = [''mods'', ''bm'', ''mod.info''],
         info_text = ''name = Big Map \<newline>id=bm\<newline>tiledef = pack  0012 x\<newline>TILEDEF=q 7\<newline>'',
         map_dirs = [''BigMap'']\<rparr>,
        \<lparr>info_path = [''mods'', ''bm'', ''42'', ''mod.info''],
         info_text = ''name=Other\<newline>id=bm\<newline>tiledef=pack 12\<newline>tiledef=bad\<newline>'',
         map_dirs = []\<rparr>],
     lotheader_files = [''5_7.lotheader'', ''05_007.lotheader'', ''a_1.lotheader'',
                        ''3_4.lotheaderx'', ''10_2.lotheader'']\<rparr>"

definition item_two :: item_dir where
  "item_two = \<lparr>dir_name = ''2'',
     mod_infos =
       [\<lparr>info_path = [''mods'', ''x'', ''mod.info''],
         info_text = ''id=x\<newline>tiledef=z 12\<newline>'',
         map_dirs = []\<rparr>],
     lotheader_files = [''5_7.lotheader'']\<rparr>"

theorem conflict_checks_exact_witness:
  "map_of (check_map_coord_conflicts [''1'' \<mapsto> item_one, ''2'' \<mapsto> item_two] [''1'', ''3'', ''2'']) (5, 7)
     = Some [''Big Map [1]'', ''2''] \<and>
   map_of (check_map_coord_conflicts [''1'' \<mapsto> item_one, ''2'' \<mapsto> item_two] [''2'', ''3'', ''1'']) (5, 7)
     = Some [''2'', ''Big Map [1]''] \<and>
   map_of (check_map_coord_conflicts [''1'' \<mapsto> item_one, ''2'' \<mapsto> item_two] [''1'', ''3'', ''2'']) (10, 2)
     = None \<and>
   map_of (check_tiledef_conflicts [''1'' \<mapsto> item_one, ''2'' \<mapsto> item_two] [''1'', ''3'', ''2'']) 12
     = Some [''Big Map [1]'', ''2''] \<and>
   map_of (check_tiledef_conflicts [''1'' \<mapsto> item_one, ''2'' \<mapsto> item_two] [''1'', ''3'', ''2'']) 7
     = None"
proof -
  let ?root = "[''1'' \<mapsto> item_one, ''2'' \<mapsto> item_two]"
  have d1: "distinct [''1'', ''3'', ''2'']" by simp
  have d2: "distinct [''2'', ''3'', ''1'']" by simp
  note a = conflict_checks_exact[OF d1, of ?root "(5, 7)" 12]
  note b = conflict_checks_exact[OF d2, of ?root "(5, 7)" 12]
  note c = conflict_checks_exact[OF d1, of ?root "(10, 2)" 7]
  have 1: "map_of (check_map_coord_conflicts ?root [''1'', ''3'', ''2'']) (5, 7)
             = Some [''Big Map [1]'', ''2'']"
    unfolding a[THEN conjunct1] by code_simp
  have 2: "map_of (check_map_coord_conflicts ?root [''2'', ''3'', ''1'']) (5, 7)
             = Some [''2'', ''Big Map [1]'']"
    unfolding b[THEN conjunct1] by code_simp
  have 3: "map_of (check_map_coord_conflicts ?root [''1'', ''3'', ''2'']) (10, 2) = None"
    unfolding c[THEN conjunct1] by code_simp
  have 4: "map_of (check_tiledef_conflicts ?root [''1'', ''3'', ''2'']) 12
             = Some [''Big Map [1]'', ''2'']"
    unfolding a[THEN conjunct2, THEN conjunct2, THEN conjunct1] by code_simp
  have 5: "map_of (check_tiledef_conflicts ?root [''1'', ''3'', ''2'']) 7 = None"
    unfolding c[THEN conjunct2, THEN conjunct2, THEN conjunct1] by code_simp
  from 1 2 3 4 5 show ?thesis by (intro conjI)
qed

text \<open>
  Claim C8 as first worded had only values claimed by two or more distinct packages
  reported, each package's label at most once. A workshop identifier listed twice makes its
  one package a conflict with itself.
\<close>

theorem conflict_checks_exact_counterexample:
  "check_map_coord_conflicts [''1'' \<mapsto> item_one] [''1'', ''1'']
     = [((5, 7), [''Big Map [1]'', ''Big Map [1]'']), ((10, 2), [''Big Map [1]'', ''Big Map [1]''])] \<and>
   check_tiledef_conflicts [''1'' \<mapsto> item_one] [''1'', ''1'']
     = [(12, [''Big Map [1]'', ''Big Map [1]'']), (7, [''Big Map [1]'', ''Big Map [1]''])] \<and>
   card (set (claimants [''1'' \<mapsto> item_one] lotheader_coords [''1'', ''1''] (5, 7))) = 1"
  by code_simp


section \<open>The run of process\_mods.py\<close>

subsection \<open>Metadata of the workshop items (collect\_mod\_info)\<close>

text \<open>
  \<open>\w\<close> on text: the letters, digits and numeric characters among the code points up to
  U+00FF, and the underscore. \<open>str_lower\<close> is \<open>str.lower\<close> on one such character.
\<close>

definition is_word_unicode :: "char \<Rightarrow> bool" where
  "is_word_unicode c \<longleftrightarrow>
     (let n = (of_char c :: nat)
      in (48 \<le> n \<and> n \<le> 57) \<or> (65 \<le> n \<and> n \<le> 90) \<or> n = 95 \<or> (97 \<le> n \<and> n \<le> 122)
         \<or> n = 170 \<or> n = 178 \<or> n = 179 \<or> n = 181 \<or> n = 185 \<or> n = 186
         \<or> (188 \<le> n \<and> n \<le> 190) \<or> (192 \<le> n \<and> n \<le> 214) \<or> (216 \<le> n \<and> n \<le> 246)
         \<or> (248 \<le> n \<and> n \<le> 255))"

definition str_lower :: "char \<Rightarrow> char" where
  "str_lower c =
     (let n = (of_char c :: nat)
      in if (65 \<le> n \<and> n \<le> 90) \<or> (192 \<le> n \<and> n \<le> 214) \<or> (216 \<le> n \<and> n \<le> 222)
         then char_of (n + 32) else c)"

text \<open>
  One line of \<open>_parse_mod_info_file\<close>:
  \<open>re.match(r"^\s*(\w+)\s*=\s*(.+)", line.rstrip("\r\n"))\<close>, giving the key in lower case
  and the stripped value.
\<close>

definition mod_info_line :: "string \<Rightarrow> (string \<times> string) option" where
  "mod_info_line raw =
     (let r0 = dropWhile isspace (rstrip_chars {CR, LF} raw);
          k = takeWhile is_word_unicode r0
      in if k = [] then None
         else (case dropWhile isspace (dropWhile is_word_unicode r0) of
                 [] \<Rightarrow> None
               | e # r2 \<Rightarrow>
                   if e \<noteq> CHR ''='' then None
                   else (let r3 = dropWhile isspace r2
                         in if r3 \<noteq> []
                            then Some (map str_lower k, strip (takeWhile (\<lambda>c. c \<noteq> LF) r3))
                            else if list_ex (\<lambda>c. c \<noteq> LF) r2 then Some (map str_lower k, [])
                            else None)))"

text \<open>
  \<open>_parse_mod_info_file\<close> returns a dictionary; \<open>info_get\<close> is its \<open>.get(key, "")\<close>, the
  value of the last line with that key.
\<close>

definition parse_mod_info_file :: "string \<Rightarrow> (string \<times> string) list" where
  "parse_mod_info_file content = List.map_filter mod_info_line (file_lines content)"

definition info_get :: "(string \<times> string) list \<Rightarrow> string \<Rightarrow> string" where
  "info_get info k = (case map_of (rev info) k of None \<Rightarrow> [] | Some v \<Rightarrow> v)"

text \<open>\<open>str.split(",")\<close> and the list of dependencies of a \<open>require=\<close> value.\<close>

fun split_from :: "char \<Rightarrow> string \<Rightarrow> string \<Rightarrow> string list" where
  "split_from sep cur [] = [cur]"
| "split_from sep cur (c # cs) =
     (if c = sep then cur # split_from sep [] cs else split_from sep (cur @ [c]) cs)"

definition require_deps :: "string \<Rightarrow> string list" where
  "require_deps raw_require =
     (if raw_require = [] then []
      else filter (\<lambda>d. d \<noteq> []) (map strip (split_from (CHR '','') [] raw_require)))"

text \<open>\<open>workshop_to_mods[wid] = item_mods\<close> on a dictionary kept as an association list.\<close>

fun dict_set :: "('k \<times> 'v) list \<Rightarrow> 'k \<Rightarrow> 'v \<Rightarrow> ('k \<times> 'v) list" where
  "dict_set [] k v = [(k, v)]"
| "dict_set ((k', v') # d) k v = (if k' = k then (k', v) # d else (k', v') # dict_set d k v)"

text \<open>
  The state of \<open>collect_mod_info\<close>: \<open>requires\<close>, \<open>workshop_to_mods\<close> and \<open>seen_global\<close>; the
  inner loop also carries \<open>item_mods\<close>.
\<close>

record mod_info_state =
  requires :: "string \<rightharpoonup> string list"
  workshop_to_mods :: "(string \<times> string list) list"
  seen_global :: "string set"

definition collect_mod_info_file ::
  "mod_info_state \<times> string list \<Rightarrow> mod_info_file \<Rightarrow> mod_info_state \<times> string list" where
  "collect_mod_info_file sm modinfo =
     (let st = fst sm; item_mods = snd sm;
          info = parse_mod_info_file (info_text modinfo);
          mod_id = strip (info_get info ''id'')
      in if mod_id = [] then sm
         else (let st' = (if mod_id \<notin> seen_global st
                          then st\<lparr>requires := (requires st)(mod_id \<mapsto>
                                      require_deps (strip (info_get info ''require''))),
                                 seen_global := insert mod_id (seen_global st)\<rparr>
                          else st)
               in (st', if mod_id \<notin> set item_mods then item_mods @ [mod_id] else item_mods)))"

definition collect_mod_info_item ::
  "(string \<Rightarrow> item_dir option) \<Rightarrow> mod_info_state \<Rightarrow> string \<Rightarrow> mod_info_state" where
  "collect_mod_info_item workshop_root st wid =
     (case workshop_root wid of
        None \<Rightarrow> st
      | Some item \<Rightarrow>
          (let sm = foldl collect_mod_info_file (st, []) (sort_key info_path (mod_infos item))
           in if snd sm \<noteq> []
              then (fst sm)\<lparr>workshop_to_mods := dict_set (workshop_to_mods (fst sm)) wid (snd sm)\<rparr>
              else fst sm))"

definition collect_mod_info ::
  "(string \<Rightarrow> item_dir option) \<Rightarrow> string list
     \<Rightarrow> (string \<rightharpoonup> string list) \<times> (string \<times> string list) list" where
  "collect_mod_info workshop_root workshop_ids =
     (let st = foldl (collect_mod_info_item workshop_root)
                 \<lparr>requires = Map.empty, workshop_to_mods = [], seen_global = {}\<rparr> workshop_ids
      in (requires st, workshop_to_mods st))"

subsection \<open>Maps (collect\_workshop\_maps, update\_map\_line)\<close>

definition VANILLA_MAPS :: "string list" where
  "VANILLA_MAPS = [''Muldraugh, KY'', ''Riverside, KY'', ''Rosewood, KY'', ''West Point, KY'',
                   ''Louisville, KY'']"

text \<open>
  \<open>collect_workshop_maps\<close>: the set \<open>found\<close>, sorted. The set \<open>seen_mod_map\<close> of the source
  only keeps a name from being added to \<open>found\<close> twice.
\<close>

definition mod_info_maps :: "string set \<Rightarrow> mod_info_file \<Rightarrow> string list" where
  "mod_info_maps active_mod_ids modinfo =
     (let mod_id = strip (info_get (parse_mod_info_file (info_text modinfo)) ''id'')
      in if mod_id = [] \<or> mod_id \<notin> active_mod_ids then [] else map_dirs modinfo)"

definition collect_workshop_maps ::
  "(string \<Rightarrow> item_dir option) \<Rightarrow> string list \<Rightarrow> string set \<Rightarrow> string list" where
  "collect_workshop_maps workshop_root workshop_ids active_mod_ids =
     sort (remdups (concat (map (\<lambda>wid. case workshop_root wid of
                                          None \<Rightarrow> []
                                        | Some item \<Rightarrow>
                                            concat (map (mod_info_maps active_mod_ids) (mod_infos item)))
                              workshop_ids)))"

record map_line_state =
  map_output_lines :: "string list"
  wrote :: bool
  skip :: bool

definition update_map_line_step :: "string \<Rightarrow> map_line_state \<Rightarrow> string \<Rightarrow> map_line_state" where
  "update_map_line_step map_csv st raw =
     (let stripped = rstrip_chars {CR, LF} raw
      in if skip st \<and> is_continuation stripped then st
         else if key_match ''map'' stripped then
           st\<lparr>map_output_lines := map_output_lines st @ [''Map='' @ map_csv @ [LF]],
              wrote := True, skip := True\<rparr>
         else st\<lparr>map_output_lines := map_output_lines st @ [raw], skip := False\<rparr>)"

definition update_map_line :: "string \<Rightarrow> string \<Rightarrow> string" where
  "update_map_line content map_csv =
     (let original = filter (\<lambda>c. c \<noteq> NUL) (read_text content);
          st = foldl (update_map_line_step map_csv)
                 \<lparr>map_output_lines = [], wrote = False, skip = False\<rparr> (splitlines original)
      in concat (if \<not> wrote st then map_output_lines st @ [''Map='' @ map_csv @ [LF]]
                 else map_output_lines st))"

text \<open>\<open>update_public_name\<close>: every line with the key is replaced; nothing is skipped.\<close>

definition update_public_name :: "string \<Rightarrow> string \<Rightarrow> string" where
  "update_public_name content public_name =
     (let ls = splitlines (read_text content);
          out = map (\<lambda>raw. if key_match ''publicname'' (rstrip_chars {CR, LF} raw)
                             then ''PublicName='' @ public_name @ [LF] else raw) ls
      in concat (if list_ex (\<lambda>raw. key_match ''publicname'' (rstrip_chars {CR, LF} raw)) ls
                 then out else out @ [''PublicName='' @ public_name @ [LF]]))"

subsection \<open>main\<close>

text \<open>\<open>";".join\<close>.\<close>

fun join_semicolon :: "string list \<Rightarrow> string" where
  "join_semicolon [] = []"
| "join_semicolon [x] = x"
| "join_semicolon (x # y # xs) = x @ '';'' @ join_semicolon (y # xs)"

text \<open>
  What a run leaves behind: the exit status, the two conflict reports as they are
  printed (both stay empty when the run ends before the checks), and the two files. A
  file that does not exist is \<open>None\<close>.
\<close>

record run =
  exit_status :: nat
  tiledef_conflicts :: "(nat \<times> string list) list"
  map_coord_conflicts :: "((nat \<times> nat) \<times> string list) list"
  mods_txt_file :: "string option"
  ini_file :: "string option"

definition fatal :: "string option \<Rightarrow> string option \<Rightarrow> run" where
  "fatal mods_txt ini =
     \<lparr>exit_status = 1, tiledef_conflicts = [], map_coord_conflicts = [],
      mods_txt_file = mods_txt, ini_file = ini\<rparr>"

text \<open>
  Steps 4 and 5 of \<open>main\<close>, the writes to the INI file: \<open>update_ini\<close>, \<open>update_map_line\<close>
  and, with a public name, \<open>update_public_name\<close>.
\<close>

definition write_ini :: "string \<Rightarrow> string list \<Rightarrow> string list \<Rightarrow> string list \<Rightarrow> string \<Rightarrow> string" where
  "write_ini ini workshop_ids mids all_maps public_name =
     (let mods_csv = join_semicolon (map (\<lambda>m. [CHR 0x5C] @ m) mids);
          workshop_csv = join_semicolon workshop_ids;
          ini1 = update_ini ini mods_csv workshop_csv;
          ini2 = update_map_line ini1 (join_semicolon all_maps)
      in if public_name \<noteq> [] then update_public_name ini2 public_name else ini2)"

definition main ::
  "string option \<Rightarrow> string option \<Rightarrow> (string \<Rightarrow> item_dir option) \<Rightarrow> string \<Rightarrow> run" where
  "main mods_txt ini workshop_root public_name =
     (case mods_txt of
        None \<Rightarrow> fatal mods_txt ini
      | Some mods_txt_content \<Rightarrow>
     (case ini of
        None \<Rightarrow> fatal mods_txt ini
      | Some ini_content \<Rightarrow>
     (let parsed = parse_mods_txt mods_txt_content;
          workshop_ids = fst parsed
      in if workshop_ids = [] then fatal mods_txt ini
         else if snd parsed = [] then fatal mods_txt ini
         else
     (let info = collect_mod_info workshop_root workshop_ids;
          tiledefs = check_tiledef_conflicts workshop_root workshop_ids;
          coords = check_map_coord_conflicts workshop_root workshop_ids;
          workshop_maps = collect_workshop_maps workshop_root workshop_ids (set (snd parsed));
          all_maps = workshop_maps @ filter (\<lambda>v. v \<notin> set workshop_maps) VANILLA_MAPS
      in case ensure_topological_order (snd parsed) (fst info) of
           Inl e \<Rightarrow> (fatal mods_txt ini)\<lparr>tiledef_conflicts := tiledefs,
                                           map_coord_conflicts := coords\<rparr>
         | Inr ordered \<Rightarrow>
             (let rewritten = rewrite_mods_txt mods_txt_content workshop_ids (fst ordered) (snd info);
                  reread = (if fst (fst rewritten) then parse_mods_txt (snd rewritten)
                            else (workshop_ids, fst ordered))
              in \<lparr>exit_status = 0, tiledef_conflicts = tiledefs, map_coord_conflicts = coords,
                  mods_txt_file = Some (snd rewritten),
                  ini_file = Some (write_ini ini_content (fst reread) (snd reread) all_maps
                                     public_name)\<rparr>)))))"

text \<open>
  A registry of two workshop items, both in the cache, that both hold \<open>5_7.lotheader\<close>.
\<close>

definition mods_txt_two_maps :: string where
  "mods_txt_two_maps = ''Workshop ID: 1\<newline>Mod ID: bm\<newline>---\<newline>\<newline>Workshop ID: 2\<newline>Mod ID: x\<newline>---\<newline>''"

text \<open>
  Claim C1 fails on this run. Both items claim the cell (5,7), so the coordinate report is
  not empty; \<open>main\<close> prints it as a warning and goes on: the INI file is rewritten and the
  exit status is 0. The tiledef report of the same run is a warning as well, which is the
  part of the claim that holds.
\<close>

theorem main_continues_despite_coord_conflict:
  "main (Some mods_txt_two_maps) (Some ''Mods=\<newline>Map=a\<newline>'')
     [''1'' \<mapsto> item_one, ''2'' \<mapsto> item_two] []
   = \<lparr>exit_status = 0,
      tiledef_conflicts = [(12, [''Big Map [1]'', ''2''])],
      map_coord_conflicts = [((5, 7), [''Big Map [1]'', ''2''])],
      mods_txt_file = Some mods_txt_two_maps,
      ini_file = Some (''Mods='' @ [CHR 0x5C] @ ''bm;'' @ [CHR 0x5C] @ ''x\<newline>''
        @ ''Map=BigMap;Muldraugh, KY;Riverside, KY;Rosewood, KY;West Point, KY;Louisville, KY\<newline>''
        @ ''WorkshopItems=1;2\<newline>'')\<rparr>"
  by code_simp

end
